theory Spec2Isabelle
  imports Main "HOL-Library.Word" "HOL-Library.Product_Lexorder"
begin

section \<open>Data model\<close>

text \<open>
  The merge planner and executor of \<^verbatim>\<open>MergeTreeDataMerger\<close>. A data part carries the
  fields the merger reads and writes. Day numbers (\<^verbatim>\<open>DayNum_t\<close>) are 16-bit, as the bounds
  \<^verbatim>\<open>std::numeric_limits<UInt16>\<close> used by \<^verbatim>\<open>mergeParts\<close> show. Values of type
  \<^verbatim>\<open>size_t\<close> and \<^verbatim>\<open>UInt64\<close> are 64-bit words, whose arithmetic wraps around as the
  source's does and whose order is the unsigned one. \<^verbatim>\<open>time_t\<close> values are integers.
  The declaration of \<^verbatim>\<open>DataPart\<close> is not part of the sources at hand; the generation
  counter \<^verbatim>\<open>level\<close> is an unsigned 32-bit integer, and its increment wraps around. The field \<^verbatim>\<open>size\<close> of a part, its number of
  marks, is \<open>size_marks\<close> here.
\<close>

type_synonym DayNum_t = "16 word"
type_synonym UInt64 = "64 word"

record DataPart =
  name :: string
  left_date :: DayNum_t
  right_date :: DayNum_t
  left :: UInt64
  right :: UInt64
  level :: "32 word"
  size_marks :: UInt64
  size_in_bytes :: UInt64
  modification_time :: int
  left_month :: DayNum_t
  right_month :: DayNum_t

record Settings =
  max_parts_to_merge_at_once :: UInt64
  max_rows_to_merge_parts :: UInt64
  max_rows_to_merge_parts_second :: UInt64
  merge_parts_at_night_inc :: UInt64

text \<open>
  What \<^verbatim>\<open>selectPartsToMerge\<close> reads besides its arguments: the snapshot
  \<^verbatim>\<open>data.getDataParts()\<close> in its order, the settings, the index granularity, the clock
  \<^verbatim>\<open>time(0)\<close> and the three values it asks of the date look-up table (which is not part
  of the sources): the current day, the first day of the current month and the current
  hour. The clock is one value for the whole call: the selection does no input or output
  between its calls of \<^verbatim>\<open>time(0)\<close>. The balance test of the source,
  \<^verbatim>\<open>static_cast<double>(cur_max) / (cur_sum - cur_max) < ratio\<close>, is computed with
  \<^verbatim>\<open>std::log\<close> in double precision from \<^verbatim>\<open>cur_max\<close>, \<^verbatim>\<open>cur_sum\<close>,
  \<^verbatim>\<open>cur_age_in_sec\<close>, the index granularity and the setting
  \<^verbatim>\<open>max_size_ratio_to_merge_parts\<close>; it enters the model as the field \<open>ratio_test\<close>, a
  predicate of the three variables, so that every theorem holds for whatever the
  floating-point evaluation returns.
\<close>

record MergeTreeData =
  data_parts :: "DataPart list"
  settings :: Settings
  index_granularity :: UInt64
  time0 :: int
  now_day :: DayNum_t
  now_month :: DayNum_t
  now_hour :: int
  ratio_test :: "UInt64 \<Rightarrow> UInt64 \<Rightarrow> int \<Rightarrow> bool"

record select_args =
  available_disk_space :: UInt64
  merge_anything_for_old_months :: bool
  aggressive :: bool
  only_small :: bool
  can_merge :: "DataPart \<Rightarrow> DataPart \<Rightarrow> bool"


section \<open>Double-precision arithmetic on the values the merger uses\<close>

text \<open>
  The two disk coefficients are doubles, and the source multiplies a \<^verbatim>\<open>size_t\<close> by them.
  An IEEE-754 binary64 operation returns the exact result rounded to 53 significant bits,
  to nearest, ties to the even significand. All values here are non-negative and either
  zero or between \<open>1\<close> and \<open>2 ^ 66\<close>, so neither overflow nor subnormal numbers occur, and
  a double is represented by the natural number \<open>v * 2 ^ 52\<close> (or by \<open>v\<close> itself when it
  is an integer): rounding to 53 significant bits commutes with a scaling by a power of two.
\<close>

fun bits :: "nat \<Rightarrow> nat" where
  "bits n = (if n = 0 then 0 else Suc (bits (n div 2)))"

declare bits.simps [simp del]

definition round_to_even :: "nat \<Rightarrow> nat \<Rightarrow> nat" where
  "round_to_even q n =
     (let f = n div q; r = n mod q
      in if 2 * r < q then f * q
         else if q < 2 * r then (f + 1) * q
         else if even f then f * q else (f + 1) * q)"

definition round_double :: "nat \<Rightarrow> nat" where
  "round_double n = (if bits n \<le> 53 then n else round_to_even (2 ^ (bits n - 53)) n)"

text \<open>
  The doubles nearest to 1.6 and 1.4, as multiples of \<open>2 ^ - 52\<close>: \<^verbatim>\<open>0x3FF999999999999A\<close>
  and \<^verbatim>\<open>0x3FF6666666666666\<close>.
\<close>

definition DISK_USAGE_COEFFICIENT_TO_SELECT :: nat where
  "DISK_USAGE_COEFFICIENT_TO_SELECT = 7205759403792794"

definition DISK_USAGE_COEFFICIENT_TO_RESERVE :: nat where
  "DISK_USAGE_COEFFICIENT_TO_RESERVE = 6305039478318694"

text \<open>
  \<^verbatim>\<open>x * coefficient\<close> for a \<^verbatim>\<open>size_t x\<close>: the conversion of \<open>x\<close> to double rounds, the
  product rounds again. The result is in units of \<open>2 ^ - 52\<close>.
\<close>

definition mul_double :: "nat \<Rightarrow> nat \<Rightarrow> nat" where
  "mul_double x coeff = round_double (round_double x * coeff)"

text \<open>
  \<^verbatim>\<open>available_disk_space > cur_total_size * DISK_USAGE_COEFFICIENT_TO_SELECT\<close>: the left
  operand is converted to double as well.
\<close>

definition enough_disk_space :: "UInt64 \<Rightarrow> UInt64 \<Rightarrow> bool" where
  "enough_disk_space avail bytes \<longleftrightarrow>
     mul_double (unat bytes) DISK_USAGE_COEFFICIENT_TO_SELECT < round_double (unat avail) * 2 ^ 52"


section \<open>Integer conversions\<close>

text \<open>\<^verbatim>\<open>static_cast<int>\<close> and the initialisation of an \<^verbatim>\<open>int\<close> from a wider integer keep
  the low 32 bits, read as two's complement.\<close>

definition to_int :: "int \<Rightarrow> int" where
  "to_int x = (x + 2 ^ 31) mod 2 ^ 32 - 2 ^ 31"

text \<open>\<^verbatim>\<open>-1U\<close> is the \<^verbatim>\<open>unsigned int\<close> \<open>2 ^ 32 - 1\<close>, widened to \<^verbatim>\<open>size_t\<close>.\<close>

definition minus_1U :: UInt64 where
  "minus_1U = 4294967295"


section \<open>selectPartsToMerge\<close>

subsection \<open>The row ceiling and the per-part checks\<close>

definition cur_max_rows_to_merge_parts :: "MergeTreeData \<Rightarrow> select_args \<Rightarrow> UInt64" where
  "cur_max_rows_to_merge_parts d a =
     (if only_small a then max_rows_to_merge_parts_second (settings d)
      else if 1 \<le> now_hour d \<and> now_hour d \<le> 5
        then max_rows_to_merge_parts (settings d) * merge_parts_at_night_inc (settings d)
      else max_rows_to_merge_parts (settings d))"

text \<open>\<^verbatim>\<open>part->size * data.index_granularity > cur_max_rows_to_merge_parts && !aggressive\<close>\<close>

definition too_large :: "MergeTreeData \<Rightarrow> select_args \<Rightarrow> DataPart \<Rightarrow> bool" where
  "too_large d a p \<longleftrightarrow>
     cur_max_rows_to_merge_parts d a < size_marks p * index_granularity d
     \<and> \<not> aggressive a"

text \<open>The two tests on the left end of a run; a part that fails one is passed over
  (\<^verbatim>\<open>continue\<close>).\<close>

definition can_start :: "MergeTreeData \<Rightarrow> select_args \<Rightarrow> DataPart \<Rightarrow> bool" where
  "can_start d a first_part \<longleftrightarrow>
     \<not> too_large d a first_part \<and> left_month first_part = right_month first_part"

definition is_old_month :: "MergeTreeData \<Rightarrow> DataPart \<Rightarrow> bool" where
  "is_old_month d first_part \<longleftrightarrow>
     1 \<le> uint (now_day d) - uint (now_month d) \<and> left_month first_part < now_month d"


subsection \<open>The current run\<close>

record cur_run =
  cur_max :: UInt64
  cur_min :: UInt64
  cur_sum :: UInt64
  cur_total_size :: UInt64
  cur_len :: int
  cur_id :: UInt64
  oldest_modification_time :: int

record longest_run =
  cur_longest_max :: UInt64
  cur_longest_min :: UInt64
  cur_longest_len :: int

definition start_run :: "DataPart \<Rightarrow> cur_run" where
  "start_run first_part =
     \<lparr> cur_max = size_marks first_part, cur_min = size_marks first_part,
       cur_sum = size_marks first_part, cur_total_size = size_in_bytes first_part,
       cur_len = 1, cur_id = right first_part,
       oldest_modification_time = modification_time first_part \<rparr>"

definition no_longest :: longest_run where
  "no_longest = \<lparr> cur_longest_max = minus_1U, cur_longest_min = minus_1U, cur_longest_len = 0 \<rparr>"

text \<open>The three tests that end the inner loop by \<^verbatim>\<open>break\<close>, negated: the next part may
  be merged with the previous one and lies in the month of the run, it is small enough, and
  it starts at or after the right end of the run (\<^verbatim>\<open>cur_id\<close>).\<close>

definition can_extend ::
  "MergeTreeData \<Rightarrow> select_args \<Rightarrow> DataPart \<Rightarrow> DataPart \<Rightarrow> DataPart \<Rightarrow> cur_run \<Rightarrow> bool" where
  "can_extend d a first_part prev_part last_part s \<longleftrightarrow>
     \<not> (\<not> can_merge a prev_part last_part
        \<or> left_month last_part \<noteq> right_month last_part
        \<or> left_month last_part \<noteq> left_month first_part)
     \<and> \<not> too_large d a last_part
     \<and> \<not> left last_part < cur_id s"

definition add_part :: "DataPart \<Rightarrow> cur_run \<Rightarrow> cur_run" where
  "add_part last_part s =
     \<lparr> cur_max = max (cur_max s) (size_marks last_part),
       cur_min = min (cur_min s) (size_marks last_part),
       cur_sum = cur_sum s + size_marks last_part,
       cur_total_size = cur_total_size s + size_in_bytes last_part,
       cur_len = cur_len s + 1,
       cur_id = right last_part,
       oldest_modification_time =
         max (oldest_modification_time s) (modification_time last_part) \<rparr>"

definition cur_age_in_sec :: "MergeTreeData \<Rightarrow> cur_run \<Rightarrow> int" where
  "cur_age_in_sec d s = to_int (time0 d - oldest_modification_time s)"

definition min_len :: "MergeTreeData \<Rightarrow> cur_run \<Rightarrow> int" where
  "min_len d s =
     (if 1024 * 1024 * 1024 < cur_max s * index_granularity d * 150
         \<and> cur_age_in_sec d s < 6 * 3600
      then 3 else 2)"

text \<open>The condition under which the source records the current run as the longest valid
  one starting here, before the disk test.\<close>

definition run_is_valid ::
  "MergeTreeData \<Rightarrow> select_args \<Rightarrow> DataPart \<Rightarrow> cur_run \<Rightarrow> bool" where
  "run_is_valid d a first_part s \<longleftrightarrow>
     min_len d s \<le> cur_len s
     \<and> (ratio_test d (cur_max s) (cur_sum s) (cur_age_in_sec d s)
        \<or> (is_old_month d first_part \<and> merge_anything_for_old_months a
           \<and> 3600 * 24 * 15 < cur_age_in_sec d s)
        \<or> aggressive a)"

definition record_run :: "cur_run \<Rightarrow> longest_run" where
  "record_run s =
     \<lparr> cur_longest_max = cur_max s, cur_longest_min = cur_min s, cur_longest_len = cur_len s \<rparr>"

text \<open>The inner loop over the right end of the run. \<open>rest\<close> holds the parts after
  \<open>prev_part\<close> in the snapshot.\<close>

fun extend_run ::
  "MergeTreeData \<Rightarrow> select_args \<Rightarrow> DataPart \<Rightarrow> DataPart \<Rightarrow> DataPart list \<Rightarrow>
     cur_run \<Rightarrow> longest_run \<Rightarrow> longest_run" where
  "extend_run d a first_part prev_part [] s lg = lg"
| "extend_run d a first_part prev_part (last_part # rest) s lg =
     (if \<not> cur_len s < to_int (uint (max_parts_to_merge_at_once (settings d))) then lg
      else if \<not> can_extend d a first_part prev_part last_part s then lg
      else
        let s' = add_part last_part s;
            lg' = (if run_is_valid d a first_part s'
                      \<and> enough_disk_space (available_disk_space a) (cur_total_size s')
                   then record_run s' else lg)
        in extend_run d a first_part last_part rest s' lg')"


subsection \<open>The outer loop and the choice among the candidates\<close>

record select_state =
  min_max :: UInt64
  min_min :: UInt64
  max_len :: int
  best_begin :: nat
  found :: bool
  max_count_from_left :: int

definition select_init :: select_state where
  "select_init =
     \<lparr> min_max = minus_1U, min_min = minus_1U, max_len = 0, best_begin = 0,
       found = False, max_count_from_left = 0 \<rparr>"

text \<open>What the source does with the longest valid run found at position \<open>i\<close>.\<close>

definition consider_run :: "nat \<Rightarrow> longest_run \<Rightarrow> select_state \<Rightarrow> select_state" where
  "consider_run i lg st =
     (if max_count_from_left st < cur_longest_len lg then
        let st' = st \<lparr> max_count_from_left := cur_longest_len lg \<rparr>
        in if \<not> found st'
              \<or> ((cur_longest_max lg, cur_longest_min lg), - cur_longest_len lg)
                  < ((min_max st', min_min st'), - max_len st')
           then st' \<lparr> found := True, min_max := cur_longest_max lg,
                     min_min := cur_longest_min lg, max_len := cur_longest_len lg,
                     best_begin := i \<rparr>
           else st'
      else st)"

text \<open>The inner loop as it is started for the left end \<open>first_part\<close>: its result is the
  longest valid run starting there, or \<open>no_longest\<close>.\<close>

definition longest_from ::
  "MergeTreeData \<Rightarrow> select_args \<Rightarrow> DataPart \<Rightarrow> DataPart list \<Rightarrow> longest_run" where
  "longest_from d a first_part rest =
     extend_run d a first_part first_part rest (start_run first_part) no_longest"

text \<open>One pass of the loop over the left end, for the part \<open>first_part\<close> at position
  \<open>i\<close> of the snapshot, followed by the parts \<open>rest\<close>. A \<^verbatim>\<open>continue\<close> leaves the pass
  with the counter \<^verbatim>\<open>max_count_from_left\<close> decremented and nothing else changed.\<close>

definition select_step ::
  "MergeTreeData \<Rightarrow> select_args \<Rightarrow> nat \<Rightarrow> DataPart \<Rightarrow> DataPart list \<Rightarrow>
     select_state \<Rightarrow> select_state" where
  "select_step d a i first_part rest st =
     (let st1 = st \<lparr> max_count_from_left := max 0 (max_count_from_left st - 1) \<rparr>
      in if too_large d a first_part then st1
         else if left_month first_part \<noteq> right_month first_part then st1
         else consider_run i (longest_from d a first_part rest) st1)"

text \<open>The loop over the left end. \<open>i\<close> is the position of the iterator \<^verbatim>\<open>it\<close> in the
  snapshot and the list holds the parts from there on.\<close>

fun select_loop ::
  "MergeTreeData \<Rightarrow> select_args \<Rightarrow> nat \<Rightarrow> DataPart list \<Rightarrow> select_state \<Rightarrow> select_state" where
  "select_loop d a i [] st = st"
| "select_loop d a i (first_part # rest) st =
     select_loop d a (Suc i) rest (select_step d a i first_part rest st)"

definition mk_args ::
  "UInt64 \<Rightarrow> bool \<Rightarrow> bool \<Rightarrow> bool \<Rightarrow> (DataPart \<Rightarrow> DataPart \<Rightarrow> bool) \<Rightarrow> select_args" where
  "mk_args avail merge_old aggr small pred =
     \<lparr> available_disk_space = avail, merge_anything_for_old_months = merge_old,
       aggressive = aggr, only_small = small, can_merge = pred \<rparr>"

text \<open>The function itself: the first component is the returned flag, the second the
  caller's vector \<^verbatim>\<open>parts\<close> after the call.\<close>

definition selectPartsToMerge ::
  "MergeTreeData \<Rightarrow> DataPart list \<Rightarrow> UInt64 \<Rightarrow> bool \<Rightarrow> bool \<Rightarrow> bool \<Rightarrow>
     (DataPart \<Rightarrow> DataPart \<Rightarrow> bool) \<Rightarrow> bool \<times> DataPart list" where
  "selectPartsToMerge d parts avail merge_old aggr small pred =
     (let a = mk_args avail merge_old aggr small pred;
          st = select_loop d a 0 (data_parts d) select_init
      in if found st
         then (True, take (nat (max_len st)) (drop (best_begin st) (data_parts d)))
         else (False, parts))"


section \<open>Runs of parts, described without the loops\<close>

text \<open>The statistics of a run, as functions of its parts: the sums are sums of 64-bit
  words. The modification time kept for a run is the greatest one, that of the part
  modified last.\<close>

definition stats_of_run :: "DataPart list \<Rightarrow> cur_run" where
  "stats_of_run run =
     \<lparr> cur_max = Max (set (map size_marks run)),
       cur_min = Min (set (map size_marks run)),
       cur_sum = sum_list (map size_marks run),
       cur_total_size = sum_list (map size_in_bytes run),
       cur_len = int (length run),
       cur_id = right (last run),
       oldest_modification_time = Max (set (map modification_time run)) \<rparr>"

text \<open>Two neighbours of a run: the conditions under which the inner loop goes on from
  \<open>prev_part\<close> to \<open>last_part\<close>.\<close>

definition link_ok ::
  "MergeTreeData \<Rightarrow> select_args \<Rightarrow> DataPart \<Rightarrow> DataPart \<Rightarrow> DataPart \<Rightarrow> bool" where
  "link_ok d a first_part prev_part last_part \<longleftrightarrow>
     can_merge a prev_part last_part
     \<and> left_month last_part = right_month last_part
     \<and> left_month last_part = left_month first_part
     \<and> \<not> too_large d a last_part
     \<and> right prev_part \<le> left last_part"

fun chain_ok :: "MergeTreeData \<Rightarrow> select_args \<Rightarrow> DataPart \<Rightarrow> DataPart list \<Rightarrow> bool" where
  "chain_ok d a f [] = True"
| "chain_ok d a f [x] = True"
| "chain_ok d a f (x # y # r) = (link_ok d a f x y \<and> chain_ok d a f (y # r))"

text \<open>A valid run: at least two parts and no more than the cap, a first part that may
  start a run, neighbours that may be joined, the validity condition of the source on the
  statistics of the run, and enough disk space.\<close>

definition valid_run :: "MergeTreeData \<Rightarrow> select_args \<Rightarrow> DataPart list \<Rightarrow> bool" where
  "valid_run d a run \<longleftrightarrow>
     2 \<le> length run
     \<and> int (length run) \<le> to_int (uint (max_parts_to_merge_at_once (settings d)))
     \<and> can_start d a (hd run)
     \<and> chain_ok d a (hd run) run
     \<and> run_is_valid d a (hd run) (stats_of_run run)
     \<and> enough_disk_space (available_disk_space a) (cur_total_size (stats_of_run run))"

text \<open>The run of \<open>n\<close> parts that starts at position \<open>i\<close> of the snapshot \<open>ps\<close>.\<close>

definition valid_at ::
  "MergeTreeData \<Rightarrow> select_args \<Rightarrow> DataPart list \<Rightarrow> nat \<Rightarrow> nat \<Rightarrow> bool" where
  "valid_at d a ps i n \<longleftrightarrow> i + n \<le> length ps \<and> valid_run d a (take n (drop i ps))"

text \<open>Maximal by inclusion: no valid run of the snapshot covers the positions
  \<open>i, \<dots>, i + n - 1\<close> but the run itself.\<close>

definition maximal_at ::
  "MergeTreeData \<Rightarrow> select_args \<Rightarrow> DataPart list \<Rightarrow> nat \<Rightarrow> nat \<Rightarrow> bool" where
  "maximal_at d a ps i n \<longleftrightarrow>
     valid_at d a ps i n
     \<and> (\<forall>j m. valid_at d a ps j m \<and> j \<le> i \<and> i + n \<le> j + m \<longrightarrow> j = i \<and> m = n)"

text \<open>The triple the source compares candidates by.\<close>

definition run_key :: "DataPart list \<Rightarrow> (UInt64 \<times> UInt64) \<times> int" where
  "run_key run =
     ((Max (set (map size_marks run)), Min (set (map size_marks run))), - int (length run))"

text \<open>The state of the outer loop when it reaches position \<open>i\<close>. The counter
  \<^verbatim>\<open>max_count_from_left\<close> bounds how far the valid runs that start to the left reach, and
  some valid run reaches that far when the counter is positive.\<close>

definition cover_inv ::
  "MergeTreeData \<Rightarrow> select_args \<Rightarrow> DataPart list \<Rightarrow> nat \<Rightarrow> select_state \<Rightarrow> bool" where
  "cover_inv d a ps i st \<longleftrightarrow>
     0 \<le> max_count_from_left st
     \<and> (\<forall>j m. j < i \<and> valid_at d a ps j m \<longrightarrow>
            int (j + m) \<le> int i + max_count_from_left st - 1)
     \<and> (0 < max_count_from_left st \<longrightarrow>
          (\<exists>j m. j < i \<and> valid_at d a ps j m
             \<and> int (j + m) = int i + max_count_from_left st - 1))"

text \<open>The candidate kept so far, and a candidate of the snapshot, each with its position:
  the order on these pairs is the lexicographic one.\<close>

definition best_key :: "select_state \<Rightarrow> ((UInt64 \<times> UInt64) \<times> int) \<times> nat" where
  "best_key st = (((min_max st, min_min st), - max_len st), best_begin st)"

definition cand_key :: "DataPart list \<Rightarrow> nat \<Rightarrow> nat \<Rightarrow> ((UInt64 \<times> UInt64) \<times> int) \<times> nat" where
  "cand_key ps j m = (run_key (take m (drop j ps)), j)"

definition best_inv ::
  "MergeTreeData \<Rightarrow> select_args \<Rightarrow> DataPart list \<Rightarrow> nat \<Rightarrow> select_state \<Rightarrow> bool" where
  "best_inv d a ps i st \<longleftrightarrow>
     (found st \<longrightarrow>
        best_begin st < i \<and> 0 \<le> max_len st
        \<and> maximal_at d a ps (best_begin st) (nat (max_len st))
        \<and> best_key st = cand_key ps (best_begin st) (nat (max_len st)))
     \<and> (\<forall>j m. j < i \<and> maximal_at d a ps j m \<longrightarrow> found st \<and> best_key st \<le> cand_key ps j m)"


section \<open>estimateDiskSpaceForMerge\<close>

text \<open>The sizes are added up in a \<^verbatim>\<open>size_t\<close>; the sum is converted to double and multiplied
  by the reserve coefficient, and \<^verbatim>\<open>static_cast<size_t>\<close> drops the fraction of the product.
  The conversion of a double that does not fit a \<^verbatim>\<open>size_t\<close> is undefined in C++: the result
  is \<open>None\<close> there.\<close>

definition estimateDiskSpaceForMerge :: "DataPart list \<Rightarrow> UInt64 option" where
  "estimateDiskSpaceForMerge parts =
     (let res = foldl (\<lambda>res part. res + size_in_bytes part) 0 parts;
          v = mul_double (unat res) DISK_USAGE_COEFFICIENT_TO_RESERVE div 2 ^ 52
      in if v < 2 ^ 64 then Some (of_nat v) else None)"

text \<open>What the specification says instead: the ceiling of the sum of the sizes times 1.4,
  that is of \<open>7 * sum / 5\<close>.\<close>

definition estimate_spec :: "DataPart list \<Rightarrow> nat" where
  "estimate_spec parts = (7 * sum_list (map (\<lambda>p. unat (size_in_bytes p)) parts) + 4) div 5"

text \<open>The age of a run as the specification words it: the time since the least
  modification time of its parts.\<close>

definition oldest_age_spec :: "MergeTreeData \<Rightarrow> DataPart list \<Rightarrow> int" where
  "oldest_age_spec d run = time0 d - Min (set (map modification_time run))"


section \<open>mergeParts\<close>

text \<open>
  The executor reads the table's mode and uses functions that are not part of the sources
  at hand: the name of a part, the first day of a month, the atomic replacement of parts
  in the part set, the merged stream (one of three stream classes, by mode) and the
  writer with its count of marks. They are fields of the record below, so that the
  theorems hold for every implementation of them. \<open>'b\<close> is the type of blocks. The flag
  \<^verbatim>\<open>canceled\<close> is written by another thread: \<open>canceled e k\<close> is what the \<open>k\<close>-th read of it
  by \<^verbatim>\<open>mergeParts\<close> returns.
\<close>

datatype Mode = Ordinary | Collapsing | Summing | Unknown_mode int

datatype failure = LOGICAL_ERROR string | UNDEFINED_BEHAVIOUR

record storage =
  part_set :: "DataPart list"
  replace_calls :: "(DataPart list \<times> DataPart) list"

record 'b executor =
  mode :: Mode
  getPartName :: "DayNum_t \<Rightarrow> DayNum_t \<Rightarrow> UInt64 \<Rightarrow> UInt64 \<Rightarrow> 32 word \<Rightarrow> string"
  toFirstDayNumOfMonth :: "DayNum_t \<Rightarrow> DayNum_t"
  replaceParts :: "DataPart list \<Rightarrow> DataPart \<Rightarrow> DataPart list \<Rightarrow> DataPart list"
  merged_stream :: "DataPart list \<Rightarrow> 'b list"
  marksCount :: "'b list \<Rightarrow> UInt64"
  canceled :: "nat \<Rightarrow> bool"
  merge_time :: int

text \<open>The metadata of the new part, lines 242 to 258 of the source: the loop over the
  parts updates three accumulators, started at 0, at the greatest and at the least
  \<^verbatim>\<open>UInt16\<close>. The fields that \<^verbatim>\<open>mergeParts\<close> sets later, or not at all, are 0 here. The
  function is used on a non-empty vector only.\<close>

definition new_data_part :: "'b executor \<Rightarrow> DataPart list \<Rightarrow> DataPart" where
  "new_data_part e parts =
     (let lv = foldl (\<lambda>l p. max l (level p)) 0 parts;
          ld = foldl (\<lambda>x p. min x (left_date p)) 65535 parts;
          rd = foldl (\<lambda>x p. max x (right_date p)) 0 parts;
          lv1 = lv + 1
      in \<lparr> name = getPartName e ld rd (left (hd parts)) (right (last parts)) lv1,
           left_date = ld, right_date = rd,
           left = left (hd parts), right = right (last parts), level = lv1,
           size_marks = 0, size_in_bytes = 0, modification_time = 0,
           left_month = toFirstDayNumOfMonth e ld, right_month = toFirstDayNumOfMonth e rd \<rparr>)"

text \<open>\<^verbatim>\<open>while (!canceled && (block = merged_stream->read())) to->write(block);\<close> The result
  is the number of reads of the flag so far and the blocks written. At the end of the
  stream the flag has been read once more, whatever it was.\<close>

fun write_blocks :: "(nat \<Rightarrow> bool) \<Rightarrow> nat \<Rightarrow> 'b list \<Rightarrow> 'b list \<Rightarrow> nat \<times> 'b list" where
  "write_blocks cn k [] written = (Suc k, written)"
| "write_blocks cn k (b # bs) written =
     (if cn k then (Suc k, written) else write_blocks cn (Suc k) bs (written @ [b]))"

text \<open>The function: its result is the returned name or the exception thrown, together
  with the storage after the call. \<^verbatim>\<open>parts.front()\<close> of an empty vector is undefined.\<close>

definition mergeParts ::
  "'b executor \<Rightarrow> storage \<Rightarrow> DataPart list \<Rightarrow> (failure + string) \<times> storage" where
  "mergeParts e st parts =
     (if parts = [] then (Inl UNDEFINED_BEHAVIOUR, st)
      else
        let new_part = new_data_part e parts in
        case mode e of
          Unknown_mode m \<Rightarrow>
            (Inl (LOGICAL_ERROR ''Unknown mode of operation for MergeTreeData''), st)
        | _ \<Rightarrow>
            let (k, written) = write_blocks (canceled e) 0 (merged_stream e parts) [] in
            if canceled e k then (Inr '''', st)
            else if 0 = marksCount e written \<and> mode e = Ordinary
              then (Inl (LOGICAL_ERROR ''Empty part after merge''), st)
            else
              let new_part = new_part \<lparr> size_marks := marksCount e written,
                                        modification_time := merge_time e \<rparr>
              in if 0 = marksCount e written then (Inr '''', st)
                 else (Inr (name new_part),
                       st \<lparr> part_set := replaceParts e parts new_part (part_set st),
                            replace_calls := replace_calls st @ [(parts, new_part)] \<rparr>))"


section \<open>A small snapshot\<close>

text \<open>Parts of one month with 10 marks and 100 bytes each, a table with an index
  granularity of 8192 rows, and a balance test that accepts a run whose largest part is
  less than one and a half times the others together.\<close>

definition ex_part :: "UInt64 \<Rightarrow> int \<Rightarrow> DataPart" where
  "ex_part l t =
     \<lparr> name = ''p'', left_date = 15000, right_date = 15001, left = l, right = l, level = 0,
       size_marks = 10, size_in_bytes = 100, modification_time = t,
       left_month = 14990, right_month = 14990 \<rparr>"

definition ex_data :: "DataPart list \<Rightarrow> MergeTreeData" where
  "ex_data ps =
     \<lparr> data_parts = ps,
       settings = \<lparr> max_parts_to_merge_at_once = 10, max_rows_to_merge_parts = 26214400,
                    max_rows_to_merge_parts_second = 1048576, merge_parts_at_night_inc = 10 \<rparr>,
       index_granularity = 8192, time0 = 1300000000, now_day = 15050, now_month = 15040,
       now_hour = 12,
       ratio_test = (\<lambda>mx sm age. 2 * unat mx < 3 * (unat sm - unat mx)) \<rparr>"

definition ex_parts :: "DataPart list" where
  "ex_parts = [ex_part 1 1299990000, ex_part 2 1299990000]"


text \<open>A part modified twenty days before \<open>time0\<close> and one modified a day before it, and
  a table whose balance test never holds.\<close>

definition ex_old_parts :: "DataPart list" where
  "ex_old_parts = [ex_part 1 1298272000, ex_part 2 1299913600]"

definition ex_data_unbalanced :: "DataPart list \<Rightarrow> MergeTreeData" where
  "ex_data_unbalanced ps = (ex_data ps) \<lparr> ratio_test := (\<lambda>mx sm age. False) \<rparr>"

text \<open>Two parts of 1000 marks, written a minute before \<open>time0\<close>.\<close>

definition ex_big_parts :: "DataPart list" where
  "ex_big_parts =
     [(ex_part 1 1299999940) \<lparr> size_marks := 1000 \<rparr>,
      (ex_part 2 1299999940) \<lparr> size_marks := 1000 \<rparr>]"

text \<open>Parts of 1 byte and of 45 bytes.\<close>

definition ex_byte :: DataPart where
  "ex_byte = (ex_part 1 0) \<lparr> size_in_bytes := 1 \<rparr>"

definition ex_45_bytes :: DataPart where
  "ex_45_bytes = (ex_part 1 0) \<lparr> size_in_bytes := 45 \<rparr>"

text \<open>An executor whose merged stream yields two blocks, each one mark long.\<close>

definition ex_executor :: "nat executor" where
  "ex_executor =
     \<lparr> mode = Ordinary, getPartName = (\<lambda>ld rd l r lv. ''merged''),
       toFirstDayNumOfMonth = (\<lambda>day. 14990),
       replaceParts = (\<lambda>old new ps. new # filter (\<lambda>p. p \<notin> set old) ps),
       merged_stream = (\<lambda>ps. [1, 2]), marksCount = (\<lambda>bs. of_nat (length bs)),
       canceled = (\<lambda>k. False), merge_time = 1300000000 \<rparr>"

definition ex_storage :: storage where
  "ex_storage = \<lparr> part_set = ex_parts, replace_calls = [] \<rparr>"


text \<open>A run of more than \<open>2 ^ 53\<close> bytes, and a part of the greatest level.\<close>

definition ex_huge_parts :: "DataPart list" where
  "ex_huge_parts =
     [(ex_part 1 1299990000) \<lparr> size_in_bytes := 10276377866611456 \<rparr>,
      (ex_part 2 1299990000) \<lparr> size_in_bytes := 1 \<rparr>]"

definition ex_top_level :: DataPart where
  "ex_top_level = (ex_part 1 0) \<lparr> level := 4294967295 \<rparr>"


section \<open>Properties of the inner loop\<close>

subsection \<open>Statistics of a run\<close>

lemma stats_of_run_single: "stats_of_run [p] = start_run p"
  by (simp add: stats_of_run_def start_run_def)

lemma stats_of_run_snoc:
  "run \<noteq> [] \<Longrightarrow> add_part p (stats_of_run run) = stats_of_run (run @ [p])"
  by (simp add: stats_of_run_def add_part_def Max_insert Min_insert max.commute min.commute add.commute)

lemma cur_len_stats [simp]: "cur_len (stats_of_run run) = int (length run)"
  by (simp add: stats_of_run_def)

lemma cur_id_stats [simp]: "cur_id (stats_of_run run) = right (last run)"
  by (simp add: stats_of_run_def)

lemma record_run_len [simp]: "cur_longest_len (record_run s) = cur_len s"
  by (simp add: record_run_def)

subsection \<open>Chains\<close>

lemma chain_ok_snoc:
  "run \<noteq> [] \<Longrightarrow> chain_ok d a f (run @ [p]) = (chain_ok d a f run \<and> link_ok d a f (last run) p)"
proof (induction run rule: chain_ok.induct[of _ d a f])
  case (1 d a f) then show ?case by simp
next
  case (2 d a f x) then show ?case by simp
next
  case (3 d a f x y r) then show ?case by auto
qed

lemma chain_ok_append_left:
  "chain_ok d a f (run @ xs) \<Longrightarrow> chain_ok d a f run"
proof (induction xs rule: rev_induct)
  case Nil then show ?case by simp
next
  case (snoc x xs)
  show ?case
  proof (cases "run @ xs = []")
    case True then show ?thesis by simp
  next
    case False
    with snoc.prems have "chain_ok d a f (run @ xs)"
      using chain_ok_snoc[of "run @ xs" d a f x] by simp
    then show ?thesis by (rule snoc.IH)
  qed
qed

lemma can_extend_link:
  "can_extend d a f (last run) p (stats_of_run run) = link_ok d a f (last run) p"
  by (auto simp: can_extend_def link_ok_def)


subsection \<open>The inner loop\<close>

lemma extend_run_go:
  "cur_len s < to_int (uint (max_parts_to_merge_at_once (settings d))) \<Longrightarrow>
   can_extend d a f prev p s \<Longrightarrow>
   extend_run d a f prev (p # rest) s lg =
     extend_run d a f p rest (add_part p s)
       (if run_is_valid d a f (add_part p s)
           \<and> enough_disk_space (available_disk_space a) (cur_total_size (add_part p s))
        then record_run (add_part p s) else lg)"
  by (simp add: Let_def)

lemma extend_run_stop:
  "\<not> (cur_len s < to_int (uint (max_parts_to_merge_at_once (settings d)))
      \<and> can_extend d a f prev p s) \<Longrightarrow>
   extend_run d a f prev (p # rest) s lg = lg"
  by auto

declare extend_run.simps(2) [simp del]

lemma extend_run_mono:
  "cur_longest_len lg \<le> cur_len s \<Longrightarrow>
   cur_longest_len lg \<le> cur_longest_len (extend_run d a f prev rest s lg)"
proof (induction rest arbitrary: prev s lg)
  case Nil
  then show ?case by simp
next
  case (Cons p rest)
  let ?s = "add_part p s"
  let ?lg = "if run_is_valid d a f ?s
                \<and> enough_disk_space (available_disk_space a) (cur_total_size ?s)
             then record_run ?s else lg"
  have len: "cur_len ?s = cur_len s + 1" by (simp add: add_part_def)
  have le1: "cur_longest_len lg \<le> cur_longest_len ?lg" using Cons.prems len by simp
  have le2: "cur_longest_len ?lg \<le> cur_len ?s" using Cons.prems len by simp
  have "cur_longest_len ?lg \<le> cur_longest_len (extend_run d a f p rest ?s ?lg)"
    using le2 by (rule Cons.IH)
  with le1 have *: "cur_longest_len lg \<le> cur_longest_len (extend_run d a f p rest ?s ?lg)"
    by linarith
  show ?case
  proof (cases "cur_len s < to_int (uint (max_parts_to_merge_at_once (settings d)))
      \<and> can_extend d a f prev p s")
    case True
    then show ?thesis using * by (simp add: extend_run_go)
  next
    case False
    then show ?thesis by (simp add: extend_run_stop)
  qed
qed

lemma extend_run_result:
  assumes "run \<noteq> []" and "can_start d a (hd run)" and "chain_ok d a (hd run) run"
  shows "extend_run d a (hd run) (last run) rest (stats_of_run run) lg = lg
     \<or> (\<exists>k. 1 \<le> k \<and> k \<le> length rest \<and> valid_run d a (run @ take k rest)
          \<and> extend_run d a (hd run) (last run) rest (stats_of_run run) lg
              = record_run (stats_of_run (run @ take k rest)))"
  using assms
proof (induction rest arbitrary: run lg)
  case Nil
  then show ?case by simp
next
  case (Cons p rest)
  let ?cap = "to_int (uint (max_parts_to_merge_at_once (settings d)))"
  let ?s = "stats_of_run run"
  let ?res = "extend_run d a (hd run) (last run) (p # rest) ?s lg"
  show ?case
  proof (cases "cur_len ?s < ?cap \<and> can_extend d a (hd run) (last run) p ?s")
    case False
    then have "?res = lg" by (rule extend_run_stop)
    then show ?thesis by simp
  next
    case True
    let ?run = "run @ [p]"
    let ?lg = "if run_is_valid d a (hd run) (stats_of_run ?run)
                  \<and> enough_disk_space (available_disk_space a) (cur_total_size (stats_of_run ?run))
               then record_run (stats_of_run ?run) else lg"
    have s': "add_part p ?s = stats_of_run ?run"
      using Cons.prems(1) by (rule stats_of_run_snoc)
    have hd': "hd ?run = hd run" using Cons.prems(1) by simp
    have chain': "chain_ok d a (hd run) ?run"
      using True Cons.prems by (simp add: chain_ok_snoc can_extend_link)
    have res: "?res = extend_run d a (hd ?run) (last ?run) rest (stats_of_run ?run) ?lg"
      using True by (simp add: extend_run_go s' hd')
    have len: "2 \<le> length ?run \<and> int (length ?run) \<le> ?cap"
      using True Cons.prems(1) by (cases run) auto
    have IH: "extend_run d a (hd ?run) (last ?run) rest (stats_of_run ?run) ?lg = ?lg
       \<or> (\<exists>k. 1 \<le> k \<and> k \<le> length rest \<and> valid_run d a (?run @ take k rest)
            \<and> extend_run d a (hd ?run) (last ?run) rest (stats_of_run ?run) ?lg
                = record_run (stats_of_run (?run @ take k rest)))"
      by (rule Cons.IH) (use Cons.prems chain' hd' in simp_all)
    then show ?thesis
    proof
      assume eq: "extend_run d a (hd ?run) (last ?run) rest (stats_of_run ?run) ?lg = ?lg"
      show ?thesis
      proof (cases "run_is_valid d a (hd run) (stats_of_run ?run)
                  \<and> enough_disk_space (available_disk_space a) (cur_total_size (stats_of_run ?run))")
        case False
        then have lgeq: "?lg = lg" by (rule if_not_P)
        from res eq have "?res = ?lg" by (rule trans)
        from this lgeq have "?res = lg" by (rule trans)
        then show ?thesis by simp
      next
        case good: True
        then have lgeq: "?lg = record_run (stats_of_run ?run)" by (rule if_P)
        have v: "valid_run d a (run @ take 1 (p # rest))"
          using good len chain' Cons.prems hd' by (simp add: valid_run_def)
        from res eq have "?res = ?lg" by (rule trans)
        from this lgeq have "?res = record_run (stats_of_run ?run)" by (rule trans)
        then have "?res = record_run (stats_of_run (run @ take 1 (p # rest)))" by simp
        with v have "1 \<le> (1::nat) \<and> 1 \<le> length (p # rest) \<and> valid_run d a (run @ take 1 (p # rest))
            \<and> ?res = record_run (stats_of_run (run @ take 1 (p # rest)))" by simp
        then show ?thesis by blast
      qed
    next
      assume "\<exists>k. 1 \<le> k \<and> k \<le> length rest \<and> valid_run d a (?run @ take k rest)
            \<and> extend_run d a (hd ?run) (last ?run) rest (stats_of_run ?run) ?lg
                = record_run (stats_of_run (?run @ take k rest))"
      then obtain k where k: "1 \<le> k" "k \<le> length rest" "valid_run d a (?run @ take k rest)"
        "extend_run d a (hd ?run) (last ?run) rest (stats_of_run ?run) ?lg
                = record_run (stats_of_run (?run @ take k rest))" by blast
      have "1 \<le> Suc k \<and> Suc k \<le> length (p # rest) \<and> valid_run d a (run @ take (Suc k) (p # rest))
            \<and> ?res = record_run (stats_of_run (run @ take (Suc k) (p # rest)))"
        using k res by simp
      then show ?thesis by blast
    qed
  qed
qed

lemma extend_run_complete:
  assumes "run \<noteq> []" and "cur_longest_len lg \<le> int (length run)"
    and "1 \<le> k" and "k \<le> length rest" and "valid_run d a (run @ take k rest)"
  shows "int (length run + k)
     \<le> cur_longest_len (extend_run d a (hd run) (last run) rest (stats_of_run run) lg)"
  using assms
proof (induction rest arbitrary: run lg k)
  case Nil
  then show ?case by simp
next
  case (Cons p rest)
  let ?cap = "to_int (uint (max_parts_to_merge_at_once (settings d)))"
  let ?s = "stats_of_run run"
  let ?run = "run @ [p]"
  let ?lg = "if run_is_valid d a (hd run) (stats_of_run ?run)
                \<and> enough_disk_space (available_disk_space a) (cur_total_size (stats_of_run ?run))
             then record_run (stats_of_run ?run) else lg"
  obtain k' where k': "k = Suc k'" using Cons.prems(3) by (cases k) auto
  have whole: "run @ take k (p # rest) = ?run @ take k' rest" by (simp add: k')
  have v: "valid_run d a (?run @ take k' rest)" using Cons.prems(5) whole by simp
  have hd': "hd ?run = hd run" using Cons.prems(1) by simp
  have hdw: "hd (?run @ take k' rest) = hd run" using Cons.prems(1) by simp
  from v have "chain_ok d a (hd run) (?run @ take k' rest)"
    by (simp only: valid_run_def hdw)
  then have chain': "chain_ok d a (hd run) ?run" by (rule chain_ok_append_left)
  then have link: "link_ok d a (hd run) (last run) p"
    using Cons.prems(1) by (simp add: chain_ok_snoc)
  from v have "int (length (?run @ take k' rest)) \<le> ?cap" by (simp only: valid_run_def)
  then have cap: "cur_len ?s < ?cap" by simp
  have s': "add_part p ?s = stats_of_run ?run"
    using Cons.prems(1) by (rule stats_of_run_snoc)
  have res: "extend_run d a (hd run) (last run) (p # rest) ?s lg
      = extend_run d a (hd ?run) (last ?run) rest (stats_of_run ?run) ?lg"
    using cap link by (simp add: extend_run_go can_extend_link s' hd')
  have lg_le: "cur_longest_len ?lg \<le> int (length ?run)" using Cons.prems(2) by simp
  show ?case
  proof (cases k')
    case 0
    then have "valid_run d a ?run" using v by simp
    then have good: "run_is_valid d a (hd run) (stats_of_run ?run)
        \<and> enough_disk_space (available_disk_space a) (cur_total_size (stats_of_run ?run))"
      by (simp add: valid_run_def hd')
    have "cur_longest_len ?lg \<le> cur_longest_len
        (extend_run d a (hd ?run) (last ?run) rest (stats_of_run ?run) ?lg)"
      by (rule extend_run_mono) (use lg_le in simp)
    then show ?thesis using res good k' 0 by simp
  next
    case (Suc k'')
    have "int (length ?run + k')
       \<le> cur_longest_len (extend_run d a (hd ?run) (last ?run) rest (stats_of_run ?run) ?lg)"
      by (rule Cons.IH) (use lg_le v Suc Cons.prems(4) k' in simp_all)
    then show ?thesis using res k' by simp
  qed
qed


subsection \<open>The longest valid run at a position\<close>

lemma drop_length:
  "drop i ps = f # rest \<Longrightarrow> length ps = Suc (i + length rest)"
proof -
  assume h: "drop i ps = f # rest"
  have "length (drop i ps) = Suc (length rest)" by (simp add: h)
  then show ?thesis by simp
qed

lemma valid_run_length: "valid_run d a run \<Longrightarrow> 2 \<le> length run"
  by (simp add: valid_run_def)

lemma valid_at_ge2: "valid_at d a ps i n \<Longrightarrow> 2 \<le> n"
  by (auto simp: valid_at_def dest!: valid_run_length)

lemma valid_at_Cons:
  assumes "drop i ps = f # rest"
  shows "valid_at d a ps i (Suc k) \<longleftrightarrow> k \<le> length rest \<and> valid_run d a (f # take k rest)"
  using drop_length[OF assms] by (auto simp: valid_at_def assms)

lemma valid_at_can_start:
  assumes "drop i ps = f # rest" and "valid_at d a ps i n"
  shows "can_start d a f"
proof -
  obtain k where n: "n = Suc k" using valid_at_ge2[OF assms(2)] by (cases n) auto
  from assms(2) have "valid_run d a (f # take k rest)"
    by (simp add: n valid_at_Cons[OF assms(1)])
  then show ?thesis by (simp add: valid_run_def)
qed

lemma no_longest_len [simp]: "cur_longest_len no_longest = 0"
  by (simp add: no_longest_def)

lemma longest_from_complete:
  assumes "drop i ps = f # rest" and "valid_at d a ps i n"
  shows "int n \<le> cur_longest_len (longest_from d a f rest)"
proof -
  obtain k where n: "n = Suc k" using valid_at_ge2[OF assms(2)] by (cases n) auto
  have k1: "1 \<le> k" using valid_at_ge2[OF assms(2)] n by simp
  from assms(2) have kv: "k \<le> length rest" "valid_run d a ([f] @ take k rest)"
    by (simp_all add: n valid_at_Cons[OF assms(1)])
  have "int (length [f] + k)
     \<le> cur_longest_len (extend_run d a (hd [f]) (last [f]) rest (stats_of_run [f]) no_longest)"
    by (rule extend_run_complete) (use k1 kv in simp_all)
  then show ?thesis by (simp add: longest_from_def stats_of_run_single n)
qed

lemma longest_from_sound:
  assumes "drop i ps = f # rest" and "can_start d a f"
    and "0 < cur_longest_len (longest_from d a f rest)"
  shows "valid_at d a ps i (nat (cur_longest_len (longest_from d a f rest)))
     \<and> longest_from d a f rest
        = record_run (stats_of_run (take (nat (cur_longest_len (longest_from d a f rest))) (drop i ps)))"
proof -
  let ?lg = "longest_from d a f rest"
  have eq: "?lg = extend_run d a (hd [f]) (last [f]) rest (stats_of_run [f]) no_longest"
    by (simp add: longest_from_def stats_of_run_single)
  have "extend_run d a (hd [f]) (last [f]) rest (stats_of_run [f]) no_longest = no_longest
     \<or> (\<exists>k. 1 \<le> k \<and> k \<le> length rest \<and> valid_run d a ([f] @ take k rest)
          \<and> extend_run d a (hd [f]) (last [f]) rest (stats_of_run [f]) no_longest
              = record_run (stats_of_run ([f] @ take k rest)))"
    by (rule extend_run_result) (use assms(2) in simp_all)
  then have "?lg = no_longest
     \<or> (\<exists>k. 1 \<le> k \<and> k \<le> length rest \<and> valid_run d a (f # take k rest)
          \<and> ?lg = record_run (stats_of_run (f # take k rest)))"
    by (simp add: eq)
  then obtain k where k: "k \<le> length rest" "valid_run d a (f # take k rest)"
      "?lg = record_run (stats_of_run (f # take k rest))"
    using assms(3) by auto
  have len: "cur_longest_len ?lg = int (Suc k)" using k(1) by (simp add: k(3))
  have tk: "take (Suc k) (drop i ps) = f # take k rest" by (simp add: assms(1))
  have n: "nat (cur_longest_len ?lg) = Suc k" by (simp only: len nat_int)
  have v: "valid_at d a ps i (Suc k)" using k by (simp add: valid_at_Cons[OF assms(1)])
  show ?thesis unfolding n tk using v k(3) by (rule conjI)
qed

lemma longest_from_nonneg: "0 \<le> cur_longest_len (longest_from d a f rest)"
proof -
  have "cur_longest_len no_longest \<le> cur_longest_len (extend_run d a f f rest (start_run f) no_longest)"
    by (rule extend_run_mono) (simp add: start_run_def)
  then show ?thesis by (simp add: longest_from_def)
qed


section \<open>Properties of the outer loop\<close>

lemma select_step_reject:
  assumes "\<not> (can_start d a f
      \<and> max 0 (max_count_from_left st - 1) < cur_longest_len (longest_from d a f rest))"
  shows "select_step d a i f rest st
     = st \<lparr> max_count_from_left := max 0 (max_count_from_left st - 1) \<rparr>"
  using assms by (auto simp: select_step_def consider_run_def can_start_def Let_def)

lemma select_step_accept:
  assumes "can_start d a f"
    and "max 0 (max_count_from_left st - 1) < cur_longest_len (longest_from d a f rest)"
  shows "select_step d a i f rest st =
     (let lg = longest_from d a f rest;
          st' = st \<lparr> max_count_from_left := cur_longest_len lg \<rparr>
      in if \<not> found st
            \<or> ((cur_longest_max lg, cur_longest_min lg), - cur_longest_len lg)
                < ((min_max st, min_min st), - max_len st)
         then st' \<lparr> found := True, min_max := cur_longest_max lg,
                   min_min := cur_longest_min lg, max_len := cur_longest_len lg,
                   best_begin := i \<rparr>
         else st')"
  using assms by (simp add: select_step_def consider_run_def can_start_def Let_def)

lemma select_step_mcl:
  "max_count_from_left (select_step d a i f rest st) =
     (if can_start d a f
         \<and> max 0 (max_count_from_left st - 1) < cur_longest_len (longest_from d a f rest)
      then cur_longest_len (longest_from d a f rest)
      else max 0 (max_count_from_left st - 1))"
  by (simp add: select_step_reject select_step_accept Let_def)

text \<open>What the counter says once it has been decremented at position \<open>i\<close>.\<close>

lemma cover_mid_bound:
  assumes "cover_inv d a ps i st" and "j < i" and "valid_at d a ps j m"
  shows "int (j + m) \<le> int i + max 0 (max_count_from_left st - 1)"
proof -
  from assms have "int (j + m) \<le> int i + max_count_from_left st - 1"
    unfolding cover_inv_def by blast
  then show ?thesis by linarith
qed

lemma cover_mid_reached:
  assumes "cover_inv d a ps i st" and "0 < max 0 (max_count_from_left st - 1)"
  shows "\<exists>j m. j < i \<and> valid_at d a ps j m
      \<and> int (j + m) = int i + max 0 (max_count_from_left st - 1)"
proof -
  from assms(2) have pos: "0 < max_count_from_left st" by linarith
  with assms(1) obtain j m where jm: "j < i" "valid_at d a ps j m"
      "int (j + m) = int i + max_count_from_left st - 1"
    unfolding cover_inv_def by blast
  have "int (j + m) = int i + max 0 (max_count_from_left st - 1)"
    using jm(3) assms(2) by linarith
  with jm(1,2) show ?thesis by blast
qed

lemma cover_step:
  assumes inv: "cover_inv d a ps i st" and dr: "drop i ps = f # rest"
  shows "cover_inv d a ps (Suc i) (select_step d a i f rest st)"
proof -
  let ?m = "max 0 (max_count_from_left st - 1)"
  let ?L = "cur_longest_len (longest_from d a f rest)"
  let ?st = "select_step d a i f rest st"
  show ?thesis
  proof (cases "can_start d a f \<and> ?m < ?L")
    case True
    then have mcl: "max_count_from_left ?st = ?L"
      by (simp add: select_step_accept Let_def)
    have pos: "0 < ?L" using True by linarith
    have bound: "int (j + m) \<le> int (Suc i) + ?L - 1" if "j < Suc i" "valid_at d a ps j m" for j m
    proof (cases "j = i")
      case True
      then have "int m \<le> ?L" using longest_from_complete[OF dr] that(2) by simp
      then show ?thesis using \<open>j = i\<close> by simp
    next
      case False
      then have "j < i" using that(1) by simp
      then have "int (j + m) \<le> int i + ?m" using cover_mid_bound[OF inv] that(2) by blast
      then show ?thesis using True by linarith
    qed
    have v: "valid_at d a ps i (nat ?L)"
      using longest_from_sound[OF dr] True pos by blast
    have "int (i + nat ?L) = int (Suc i) + ?L - 1" using pos by simp
    with v have reached: "\<exists>j m. j < Suc i \<and> valid_at d a ps j m
        \<and> int (j + m) = int (Suc i) + ?L - 1" by blast
    show ?thesis unfolding cover_inv_def mcl using pos bound reached by auto
  next
    case False
    have mcl: "max_count_from_left ?st = ?m" by (simp add: select_step_reject[OF False])
    have bound: "int (j + m) \<le> int (Suc i) + ?m - 1" if "j < Suc i" "valid_at d a ps j m" for j m
    proof (cases "j = i")
      case True
      then have cs: "can_start d a f" using valid_at_can_start[OF dr] that(2) by simp
      have "int m \<le> ?L" using longest_from_complete[OF dr] that(2) True by simp
      then have "int m \<le> ?m" using False cs by linarith
      then show ?thesis using True by simp
    next
      case False
      then have "j < i" using that(1) by simp
      then have "int (j + m) \<le> int i + ?m" using cover_mid_bound[OF inv] that(2) by blast
      then show ?thesis by simp
    qed
    have reached: "\<exists>j m. j < Suc i \<and> valid_at d a ps j m
        \<and> int (j + m) = int (Suc i) + ?m - 1" if "0 < ?m"
    proof -
      from cover_mid_reached[OF inv that] obtain j m where
        "j < i" "valid_at d a ps j m" "int (j + m) = int i + ?m" by blast
      then have "j < Suc i \<and> valid_at d a ps j m \<and> int (j + m) = int (Suc i) + ?m - 1"
        by simp
      then show ?thesis by blast
    qed
    have nonneg: "0 \<le> ?m" by simp
    show ?thesis unfolding cover_inv_def mcl using nonneg bound reached by blast
  qed
qed

text \<open>The source keeps the run found at position \<open>i\<close> exactly when it is maximal by
  inclusion.\<close>

lemma accepted_maximal:
  assumes inv: "cover_inv d a ps i st" and dr: "drop i ps = f # rest"
    and cs: "can_start d a f"
    and acc: "max 0 (max_count_from_left st - 1) < cur_longest_len (longest_from d a f rest)"
  shows "maximal_at d a ps i (nat (cur_longest_len (longest_from d a f rest)))"
proof -
  let ?m = "max 0 (max_count_from_left st - 1)"
  let ?L = "cur_longest_len (longest_from d a f rest)"
  have pos: "0 < ?L" using acc by linarith
  have v: "valid_at d a ps i (nat ?L)" using longest_from_sound[OF dr cs pos] by blast
  have "j = i \<and> m = nat ?L"
    if h: "valid_at d a ps j m" "j \<le> i" "i + nat ?L \<le> j + m" for j m
  proof (cases "j = i")
    case True
    have "int m \<le> ?L" using longest_from_complete[OF dr] h(1) True by simp
    then show ?thesis using h(3) True pos by linarith
  next
    case False
    then have "j < i" using h(2) by simp
    then have "int (j + m) \<le> int i + ?m" using cover_mid_bound[OF inv] h(1) by blast
    moreover have "int i + ?L \<le> int (j + m)" using h(3) pos by linarith
    ultimately show ?thesis using acc by linarith
  qed
  with v show ?thesis unfolding maximal_at_def by blast
qed

lemma rejected_not_maximal:
  assumes inv: "cover_inv d a ps i st" and dr: "drop i ps = f # rest"
    and rej: "\<not> (can_start d a f
      \<and> max 0 (max_count_from_left st - 1) < cur_longest_len (longest_from d a f rest))"
  shows "\<not> maximal_at d a ps i n"
proof
  let ?m = "max 0 (max_count_from_left st - 1)"
  let ?L = "cur_longest_len (longest_from d a f rest)"
  assume mx: "maximal_at d a ps i n"
  then have v: "valid_at d a ps i n" by (simp add: maximal_at_def)
  have cs: "can_start d a f" using valid_at_can_start[OF dr v] .
  have "int n \<le> ?L" using longest_from_complete[OF dr v] .
  then have nm: "int n \<le> ?m" using rej cs by linarith
  have "2 \<le> n" using valid_at_ge2[OF v] .
  then have "0 < ?m" using nm by linarith
  from cover_mid_reached[OF inv this] obtain j m where
    jm: "j < i" "valid_at d a ps j m" "int (j + m) = int i + ?m" by blast
  have "i + n \<le> j + m" using jm(3) nm by linarith
  then have "j = i" using mx jm(1,2) unfolding maximal_at_def by (meson less_imp_le)
  then show False using jm(1) by simp
qed

lemma maximal_at_unique:
  assumes "maximal_at d a ps i n" and "maximal_at d a ps i m"
  shows "m = n"
proof (cases "n \<le> m")
  case True
  then show ?thesis using assms unfolding maximal_at_def by (meson add_le_cancel_left le_refl)
next
  case False
  then have "m \<le> n" by simp
  then show ?thesis using assms unfolding maximal_at_def by (metis add_le_cancel_left le_refl)
qed


lemma pair_le_intro: "(x::'a::linorder) \<le> x' \<Longrightarrow> (y::nat) \<le> y' \<Longrightarrow> (x, y) \<le> (x', y')"
  by simp

lemma pair_less_intro: "(x::'a::linorder) < x' \<Longrightarrow> (x, y::nat) < (x', y')"
  by simp

lemma record_run_key:
  "((cur_longest_max (record_run (stats_of_run run)),
     cur_longest_min (record_run (stats_of_run run))),
    - cur_longest_len (record_run (stats_of_run run))) = run_key run"
  by (simp add: record_run_def stats_of_run_def run_key_def)

lemma best_step:
  assumes cov: "cover_inv d a ps i st" and bi: "best_inv d a ps i st"
    and dr: "drop i ps = f # rest"
  shows "best_inv d a ps (Suc i) (select_step d a i f rest st)"
proof -
  let ?m = "max 0 (max_count_from_left st - 1)"
  let ?lg = "longest_from d a f rest"
  let ?L = "cur_longest_len ?lg"
  let ?st = "select_step d a i f rest st"
  let ?k = "((cur_longest_max ?lg, cur_longest_min ?lg), - ?L)"
  from bi have old_best: "best_begin st < i \<and> 0 \<le> max_len st
        \<and> maximal_at d a ps (best_begin st) (nat (max_len st))
        \<and> best_key st = cand_key ps (best_begin st) (nat (max_len st))" if "found st"
    using that unfolding best_inv_def by blast
  from bi have old_all: "found st \<and> best_key st \<le> cand_key ps j m"
    if "j < i" "maximal_at d a ps j m" for j m
    using that unfolding best_inv_def by blast
  show ?thesis
  proof (cases "can_start d a f \<and> ?m < ?L")
    case False
    have eq: "?st = st \<lparr> max_count_from_left := ?m \<rparr>" by (rule select_step_reject[OF False])
    have f: "found ?st = found st" and k: "best_key ?st = best_key st"
      and b: "best_begin ?st = best_begin st" and l: "max_len ?st = max_len st"
      by (simp_all add: eq best_key_def)
    have all: "found st \<and> best_key st \<le> cand_key ps j m"
      if "j < Suc i" "maximal_at d a ps j m" for j m
    proof (cases "j = i")
      case True
      then show ?thesis using rejected_not_maximal[OF cov dr False] that(2) by blast
    next
      case False
      then have "j < i" using that(1) by simp
      then show ?thesis using that(2) by (rule old_all)
    qed
    have best: "best_begin st < Suc i \<and> 0 \<le> max_len st
        \<and> maximal_at d a ps (best_begin st) (nat (max_len st))
        \<and> best_key st = cand_key ps (best_begin st) (nat (max_len st))" if "found st"
      using old_best[OF that] by simp
    show ?thesis unfolding best_inv_def f k b l using all best by blast
  next
    case True
    then have cs: "can_start d a f" and acc: "?m < ?L" by simp_all
    have pos: "0 < ?L" using acc by linarith
    have mx: "maximal_at d a ps i (nat ?L)" by (rule accepted_maximal[OF cov dr cs acc])
    have rec: "?lg = record_run (stats_of_run (take (nat ?L) (drop i ps)))"
      using longest_from_sound[OF dr cs pos] by blast
    have key: "?k = run_key (take (nat ?L) (drop i ps))"
      using record_run_key[of "take (nat ?L) (drop i ps)"] rec by simp
    have ckey: "cand_key ps i (nat ?L) = (?k, i)" by (simp add: cand_key_def key)
    show ?thesis
    proof (cases "\<not> found st \<or> ?k < ((min_max st, min_min st), - max_len st)")
      case upd: True
      have eq: "?st = st \<lparr> max_count_from_left := ?L, found := True,
            min_max := cur_longest_max ?lg, min_min := cur_longest_min ?lg,
            max_len := ?L, best_begin := i \<rparr>"
        by (simp only: select_step_accept[OF cs acc] Let_def if_P[OF upd])
      have f: "found ?st" and b: "best_begin ?st = i" and l: "max_len ?st = ?L"
        and k: "best_key ?st = (?k, i)"
        by (simp_all add: eq best_key_def)
      have all: "best_key ?st \<le> cand_key ps j m"
        if "j < Suc i" "maximal_at d a ps j m" for j m
      proof (cases "j = i")
        case True
        then have "m = nat ?L" using maximal_at_unique[OF mx] that(2) by simp
        then show ?thesis using True ckey k by simp
      next
        case False
        then have "j < i" using that(1) by simp
        from old_all[OF this that(2)] have fs: "found st" and le: "best_key st \<le> cand_key ps j m"
          by simp_all
        from fs upd have "?k < ((min_max st, min_min st), - max_len st)" by blast
        then have "(?k, i) < best_key st" unfolding best_key_def by (rule pair_less_intro)
        then show ?thesis using le k by simp
      qed
      have best: "best_begin ?st < Suc i \<and> 0 \<le> max_len ?st
          \<and> maximal_at d a ps (best_begin ?st) (nat (max_len ?st))
          \<and> best_key ?st = cand_key ps (best_begin ?st) (nat (max_len ?st))"
        unfolding b l k using mx pos ckey by simp
      show ?thesis unfolding best_inv_def using all best f by blast
    next
      case keep: False
      then have fs: "found st" and nl: "\<not> ?k < ((min_max st, min_min st), - max_len st)"
        by blast+
      have eq: "?st = st \<lparr> max_count_from_left := ?L \<rparr>"
        by (simp only: select_step_accept[OF cs acc] Let_def if_not_P[OF keep])
      have f: "found ?st = found st" and k: "best_key ?st = best_key st"
        and b: "best_begin ?st = best_begin st" and l: "max_len ?st = max_len st"
        by (simp_all add: eq best_key_def)
      have bl: "best_begin st < i" using old_best[OF fs] by simp
      have all: "found st \<and> best_key st \<le> cand_key ps j m"
        if "j < Suc i" "maximal_at d a ps j m" for j m
      proof (cases "j = i")
        case True
        then have m: "m = nat ?L" using maximal_at_unique[OF mx] that(2) by simp
        from nl have "((min_max st, min_min st), - max_len st) \<le> ?k" by (rule leI)
        then have "best_key st \<le> (?k, i)" unfolding best_key_def
          by (rule pair_le_intro) (use bl in simp)
        then show ?thesis using fs True m ckey by simp
      next
        case False
        then have "j < i" using that(1) by simp
        then show ?thesis using that(2) by (rule old_all)
      qed
      have best: "best_begin st < Suc i \<and> 0 \<le> max_len st
          \<and> maximal_at d a ps (best_begin st) (nat (max_len st))
          \<and> best_key st = cand_key ps (best_begin st) (nat (max_len st))" if "found st"
        using old_best[OF that] by simp
      show ?thesis unfolding best_inv_def f k b l using all best by blast
    qed
  qed
qed

lemma drop_Suc_tail: "drop i ps = f # rest \<Longrightarrow> drop (Suc i) ps = rest"
  by (metis drop_Suc list.sel(3) tl_drop)

lemma select_loop_inv:
  assumes "cover_inv d a ps i st" and "best_inv d a ps i st" and "drop i ps = suf"
  shows "cover_inv d a ps (i + length suf) (select_loop d a i suf st)
     \<and> best_inv d a ps (i + length suf) (select_loop d a i suf st)"
  using assms
proof (induction suf arbitrary: i st)
  case Nil
  then show ?case by simp
next
  case (Cons f rest)
  have c: "cover_inv d a ps (Suc i) (select_step d a i f rest st)"
    by (rule cover_step[OF Cons.prems(1,3)])
  have b: "best_inv d a ps (Suc i) (select_step d a i f rest st)"
    by (rule best_step[OF Cons.prems])
  have dr: "drop (Suc i) ps = rest" by (rule drop_Suc_tail[OF Cons.prems(3)])
  from Cons.IH[OF c b dr] show ?case by simp
qed

lemma select_init_inv: "cover_inv d a ps 0 select_init \<and> best_inv d a ps 0 select_init"
  by (simp add: cover_inv_def best_inv_def select_init_def)

lemma select_loop_best:
  "best_inv d a ps (length ps) (select_loop d a 0 ps select_init)"
  using select_loop_inv[of d a ps 0 select_init ps] select_init_inv[of d a ps] by simp


section \<open>The selected run\<close>

lemma maximal_at_bounds:
  assumes "maximal_at d a ps j m"
  shows "j < length ps" and "j + m \<le> length ps" and "2 \<le> m"
proof -
  from assms have v: "valid_at d a ps j m" by (simp add: maximal_at_def)
  show "j + m \<le> length ps" using v by (simp add: valid_at_def)
  show "2 \<le> m" by (rule valid_at_ge2[OF v])
  then show "j < length ps" using \<open>j + m \<le> length ps\<close> by simp
qed

lemma selected_run:
  assumes "selectPartsToMerge d parts avail merge_old aggr small pred = (True, R)"
  shows "\<exists>i n. R = take n (drop i (data_parts d))
      \<and> maximal_at d (mk_args avail merge_old aggr small pred) (data_parts d) i n
      \<and> (\<forall>j m. maximal_at d (mk_args avail merge_old aggr small pred) (data_parts d) j m
            \<longrightarrow> cand_key (data_parts d) i n \<le> cand_key (data_parts d) j m)"
proof -
  let ?a = "mk_args avail merge_old aggr small pred"
  let ?ps = "data_parts d"
  let ?st = "select_loop d ?a 0 ?ps select_init"
  have inv: "best_inv d ?a ?ps (length ?ps) ?st" by (rule select_loop_best)
  from assms have f: "found ?st"
    and R: "R = take (nat (max_len ?st)) (drop (best_begin ?st) ?ps)"
    by (auto simp: selectPartsToMerge_def Let_def split: if_splits)
  from inv f have mx: "maximal_at d ?a ?ps (best_begin ?st) (nat (max_len ?st))"
    and key: "best_key ?st = cand_key ?ps (best_begin ?st) (nat (max_len ?st))"
    unfolding best_inv_def by blast+
  have all: "cand_key ?ps (best_begin ?st) (nat (max_len ?st)) \<le> cand_key ?ps j m"
    if "maximal_at d ?a ?ps j m" for j m
  proof -
    have "j < length ?ps" by (rule maximal_at_bounds(1)[OF that])
    with inv that have "best_key ?st \<le> cand_key ?ps j m" unfolding best_inv_def by blast
    then show ?thesis by (simp only: key)
  qed
  from R mx all show ?thesis by blast
qed

lemmas double_defs = enough_disk_space_def mul_double_def round_double_def round_to_even_def
  DISK_USAGE_COEFFICIENT_TO_SELECT_def DISK_USAGE_COEFFICIENT_TO_RESERVE_def bits.simps

lemmas ex_defs = ex_parts_def ex_part_def ex_data_def mk_args_def
  selectPartsToMerge_def select_init_def select_step_def longest_from_def consider_run_def
  no_longest_def start_run_def record_run_def run_is_valid_def min_len_def cur_age_in_sec_def
  add_part_def can_extend_def is_old_month_def can_start_def too_large_def
  cur_max_rows_to_merge_parts_def to_int_def minus_1U_def extend_run.simps Let_def

lemma ex_disk: "enough_disk_space 1000 200"
  by (simp add: double_defs)

lemma ex_select:
  "selectPartsToMerge (ex_data ex_parts) [] 1000 False False False (\<lambda>p q. True) = (True, ex_parts)"
  by (simp add: ex_defs ex_disk)

lemma ex_select_none:
  "selectPartsToMerge (ex_data [ex_part 1 0]) [ex_part 7 0] 1000 False False False (\<lambda>p q. True)
     = (False, [ex_part 7 0])"
  by (simp add: ex_defs)



text \<open>
  Claim C5. Among the valid runs of the snapshot that are maximal by inclusion, the run
  returned by \<open>selectPartsToMerge\<close> has the least key \<open>((max size, min size), - length)\<close>
  in the lexicographic order (spelled out in \<open>run_key_less\<close>), and among those with the
  same key it is the one that starts first.
\<close>

lemma run_key_less:
  "run_key R < run_key R' \<longleftrightarrow>
     Max (set (map size_marks R)) < Max (set (map size_marks R'))
     \<or> (Max (set (map size_marks R)) = Max (set (map size_marks R'))
        \<and> (Min (set (map size_marks R)) < Min (set (map size_marks R'))
           \<or> (Min (set (map size_marks R)) = Min (set (map size_marks R'))
              \<and> length R' < length R)))"
  by (auto simp: run_key_def)

theorem selected_run_best:
  assumes "selectPartsToMerge d parts avail merge_old aggr small pred = (True, R)"
  shows "\<exists>i n. R = take n (drop i (data_parts d))
      \<and> maximal_at d (mk_args avail merge_old aggr small pred) (data_parts d) i n
      \<and> (\<forall>j m. maximal_at d (mk_args avail merge_old aggr small pred) (data_parts d) j m \<longrightarrow>
            run_key R < run_key (take m (drop j (data_parts d)))
            \<or> (run_key R = run_key (take m (drop j (data_parts d))) \<and> i \<le> j))"
proof -
  from selected_run[OF assms] obtain i n where
    R: "R = take n (drop i (data_parts d))"
    and mx: "maximal_at d (mk_args avail merge_old aggr small pred) (data_parts d) i n"
    and all: "\<And>j m. maximal_at d (mk_args avail merge_old aggr small pred) (data_parts d) j m
            \<Longrightarrow> cand_key (data_parts d) i n \<le> cand_key (data_parts d) j m"
    by blast
  have "run_key R < run_key (take m (drop j (data_parts d)))
            \<or> (run_key R = run_key (take m (drop j (data_parts d))) \<and> i \<le> j)"
    if "maximal_at d (mk_args avail merge_old aggr small pred) (data_parts d) j m" for j m
  proof -
    have "(run_key R, i) \<le> (run_key (take m (drop j (data_parts d))), j)"
      using all[OF that] by (simp only: cand_key_def R)
    then show ?thesis by (simp only: less_eq_prod_simp) auto
  qed
  with R mx show ?thesis by blast
qed

theorem selected_run_best_witness:
  "selectPartsToMerge (ex_data ex_parts) [] 1000 False False False (\<lambda>p q. True) = (True, ex_parts)
   \<and> (\<exists>i n. ex_parts = take n (drop i (data_parts (ex_data ex_parts)))
      \<and> maximal_at (ex_data ex_parts) (mk_args 1000 False False False (\<lambda>p q. True))
           (data_parts (ex_data ex_parts)) i n)"
  using selected_run_best[OF ex_select] ex_select by blast

text \<open>
  Claim C10. When \<open>selectPartsToMerge\<close> returns false, the vector \<open>parts\<close> of the caller is
  what it was before the call.
\<close>

theorem parts_unchanged_when_nothing_found:
  "\<not> fst (selectPartsToMerge d parts avail merge_old aggr small pred) \<Longrightarrow>
   snd (selectPartsToMerge d parts avail merge_old aggr small pred) = parts"
  by (simp add: selectPartsToMerge_def Let_def split: if_splits)

theorem parts_unchanged_when_nothing_found_witness:
  "\<not> fst (selectPartsToMerge (ex_data [ex_part 1 0]) [ex_part 7 0] 1000 False False False (\<lambda>p q. True))
   \<and> snd (selectPartsToMerge (ex_data [ex_part 1 0]) [ex_part 7 0] 1000 False False False (\<lambda>p q. True))
       = [ex_part 7 0]"
  using parts_unchanged_when_nothing_found
    [of "ex_data [ex_part 1 0]" "[ex_part 7 0]" 1000 False False False "\<lambda>p q. True"]
  by (simp add: ex_select_none)


section \<open>Properties of the rounding\<close>

lemma bits_upper: "n < 2 ^ bits n"
proof (induction n rule: bits.induct)
  case (1 n)
  show ?case
  proof (cases "n = 0")
    case True
    then show ?thesis by (simp add: bits.simps)
  next
    case False
    then have "n div 2 < 2 ^ bits (n div 2)" by (rule "1.IH")
    then have "n < 2 * 2 ^ bits (n div 2)" by linarith
    then show ?thesis using False by (subst bits.simps) simp
  qed
qed

lemma bits_lower: "0 < n \<Longrightarrow> 2 ^ bits n \<le> 2 * n"
proof (induction n rule: bits.induct)
  case (1 n)
  then have n0: "n \<noteq> 0" by simp
  have b: "bits n = Suc (bits (n div 2))" using n0 by (subst bits.simps) simp
  show ?case
  proof (cases "n div 2 = 0")
    case True
    then have "n = 1" using n0 by linarith
    then show ?thesis by (simp add: bits.simps)
  next
    case False
    then have "2 ^ bits (n div 2) \<le> 2 * (n div 2)" using "1.IH"[OF n0] by simp
    then have "2 ^ bits (n div 2) \<le> n" by linarith
    then show ?thesis by (simp add: b)
  qed
qed

lemma bits_le_iff: "bits n \<le> k \<longleftrightarrow> n < 2 ^ k"
proof
  assume "bits n \<le> k"
  then have "(2::nat) ^ bits n \<le> 2 ^ k" by (simp add: power_increasing)
  with bits_upper[of n] show "n < 2 ^ k" by linarith
next
  assume h: "n < 2 ^ k"
  show "bits n \<le> k"
  proof (rule ccontr)
    assume "\<not> bits n \<le> k"
    then have "Suc k \<le> bits n" by simp
    then have "(2::nat) ^ Suc k \<le> 2 ^ bits n" by (rule power_increasing) simp
    moreover have "0 < n" using \<open>\<not> bits n \<le> k\<close> by (cases "n = 0") (simp_all add: bits.simps)
    ultimately have "(2::nat) ^ Suc k \<le> 2 * n" using bits_lower[of n] by linarith
    then show False using h by simp
  qed
qed

lemma bits_mono: "n \<le> m \<Longrightarrow> bits n \<le> bits m"
  using bits_le_iff[of n "bits m"] bits_upper[of m] by simp

lemma round_to_even_cases:
  "round_to_even q n = (n div q) * q \<or> round_to_even q n = (n div q + 1) * q"
  by (simp add: round_to_even_def Let_def)

lemma round_to_even_near:
  assumes "0 < q"
  shows "2 * round_to_even q n \<le> 2 * n + q" and "2 * n \<le> 2 * round_to_even q n + q"
proof -
  define f where "f = n div q"
  define r where "r = n mod q"
  define fq where "fq = f * q"
  have n: "n = fq + r" by (simp add: f_def r_def fq_def)
  have r: "r < q" using assms by (simp add: r_def)
  have rte: "round_to_even q n =
      (if 2 * r < q then fq else if q < 2 * r then fq + q
       else if even f then fq else fq + q)"
    by (simp add: round_to_even_def Let_def f_def r_def fq_def)
  have "2 * round_to_even q n \<le> 2 * (fq + r) + q" unfolding rte using r by auto
  then show "2 * round_to_even q n \<le> 2 * n + q" using n by simp
  have "2 * (fq + r) \<le> 2 * round_to_even q n + q" unfolding rte using r by auto
  then show "2 * n \<le> 2 * round_to_even q n + q" using n by simp
qed

lemma round_to_even_exact: "round_to_even q (f * q) = f * q"
  by (cases "q = 0") (simp_all add: round_to_even_def Let_def)

lemma round_to_even_mono:
  assumes "0 < q" and "n \<le> m"
  shows "round_to_even q n \<le> round_to_even q m"
proof (cases "n div q < m div q")
  case True
  then have "Suc (n div q) \<le> m div q" by simp
  then have "Suc (n div q) * q \<le> (m div q) * q" by (rule mult_le_mono1)
  then have "(n div q + 1) * q \<le> (m div q) * q" by simp
  moreover have "round_to_even q n \<le> (n div q + 1) * q"
    using round_to_even_cases[of q n] by auto
  moreover have "(m div q) * q \<le> round_to_even q m"
    using round_to_even_cases[of q m] by auto
  ultimately show ?thesis by linarith
next
  case False
  have "n div q \<le> m div q" using assms(2) by (rule div_le_mono)
  with False have eq: "n div q = m div q" by simp
  have "n = (n div q) * q + n mod q" "m = (m div q) * q + m mod q" by simp_all
  then have "n mod q \<le> m mod q" using assms(2) eq by (metis add_le_cancel_left)
  then show ?thesis using eq
    by (auto simp: round_to_even_def Let_def)
qed


lemma round_double_small: "n < 2 ^ 53 \<Longrightarrow> round_double n = n"
  by (simp add: round_double_def bits_le_iff)

lemma bits_split:
  assumes "\<not> bits n \<le> 53"
  shows "(2::nat) ^ bits n = 2 ^ 53 * 2 ^ (bits n - 53)"
proof -
  have "bits n = 53 + (bits n - 53)" using assms by simp
  then have "(2::nat) ^ bits n = 2 ^ (53 + (bits n - 53))" by simp
  then show ?thesis by (simp only: power_add)
qed

lemma round_double_upper: "round_double n \<le> 2 ^ bits n"
proof (cases "bits n \<le> 53")
  case True
  then show ?thesis using bits_upper[of n] by (simp add: round_double_def)
next
  case False
  define q :: nat where "q = 2 ^ (bits n - 53)"
  have q: "0 < q" by (simp add: q_def)
  have pw: "(2::nat) ^ bits n = 2 ^ 53 * q" unfolding q_def by (rule bits_split[OF False])
  have "n < 2 ^ 53 * q" using bits_upper[of n] pw by simp
  then have "n div q < 2 ^ 53" using q by (simp add: div_less_iff_less_mult)
  then have "n div q + 1 \<le> 2 ^ 53" by simp
  then have "(n div q + 1) * q \<le> 2 ^ 53 * q" by (rule mult_le_mono1)
  moreover have "round_to_even q n \<le> (n div q + 1) * q"
    using round_to_even_cases[of q n] by auto
  ultimately have "round_to_even q n \<le> 2 ^ bits n" using pw by linarith
  then show ?thesis using False by (simp add: round_double_def q_def)
qed

lemma round_double_lower:
  assumes "0 < n"
  shows "2 ^ bits n \<le> 2 * round_double n"
proof (cases "bits n \<le> 53")
  case True
  then show ?thesis using bits_lower[OF assms] by (simp add: round_double_def)
next
  case False
  define q :: nat where "q = 2 ^ (bits n - 53)"
  have q: "0 < q" by (simp add: q_def)
  have pw: "(2::nat) ^ bits n = 2 ^ 53 * q" unfolding q_def by (rule bits_split[OF False])
  have "2 ^ 53 * q \<le> 2 * n" using bits_lower[OF assms] pw by simp
  then have "2 ^ 52 * q \<le> n" by simp
  then have "2 ^ 52 \<le> n div q" using q by (simp add: less_eq_div_iff_mult_less_eq)
  then have "2 ^ 52 * q \<le> (n div q) * q" by (rule mult_le_mono1)
  moreover have "(n div q) * q \<le> round_to_even q n"
    using round_to_even_cases[of q n] by auto
  ultimately have "2 ^ 52 * q \<le> round_to_even q n" by (rule order_trans)
  then have "2 ^ bits n \<le> 2 * round_to_even q n" unfolding pw by simp
  then show ?thesis using False by (simp add: round_double_def q_def)
qed

lemma round_double_mono:
  assumes "n \<le> m"
  shows "round_double n \<le> round_double m"
proof (cases "bits n = bits m")
  case True
  show ?thesis
  proof (cases "bits m \<le> 53")
    case le: True
    then show ?thesis using True assms by (simp add: round_double_def)
  next
    case False
    have "round_to_even (2 ^ (bits m - 53)) n \<le> round_to_even (2 ^ (bits m - 53)) m"
      by (rule round_to_even_mono) (use assms in simp_all)
    then show ?thesis using True False by (simp add: round_double_def)
  qed
next
  case False
  then have lt: "Suc (bits n) \<le> bits m" using bits_mono[OF assms] by simp
  then have m: "0 < m" by (cases "m = 0") (simp_all add: bits.simps)
  have "(2::nat) ^ Suc (bits n) \<le> 2 ^ bits m" using lt by (rule power_increasing) simp
  then have "2 * 2 ^ bits n \<le> 2 * round_double m" using round_double_lower[OF m] by simp
  then show ?thesis using round_double_upper[of n] by linarith
qed

lemma round_double_error:
  shows "2 ^ 53 * round_double n \<le> (2 ^ 53 + 1) * n"
    and "(2 ^ 53 - 1) * n \<le> 2 ^ 53 * round_double n"
proof -
  have both: "2 ^ 53 * round_double n \<le> 2 ^ 53 * n + n \<and> 2 ^ 53 * n \<le> 2 ^ 53 * round_double n + n"
  proof (cases "bits n \<le> 53")
    case True
    then show ?thesis by (simp add: round_double_def)
  next
    case False
    define q :: nat where "q = 2 ^ (bits n - 53)"
    have q: "0 < q" by (simp add: q_def)
    have n: "0 < n" using False by (cases "n = 0") (simp_all add: bits.simps)
    have pw: "(2::nat) ^ bits n = 2 ^ 53 * q" unfolding q_def by (rule bits_split[OF False])
    have "2 ^ 53 * q \<le> 2 * n" using bits_lower[OF n] pw by simp
    then have small: "2 ^ 52 * q \<le> n" by simp
    have rd: "round_double n = round_to_even q n" using False by (simp add: round_double_def q_def)
    define e :: nat where "e = 2 ^ 52 * q"
    define r where "r = round_to_even q n"
    have e: "e \<le> n" using small by (simp add: e_def)
    have near: "2 ^ 53 * r \<le> 2 ^ 53 * n + e" "2 ^ 53 * n \<le> 2 ^ 53 * r + e"
      using round_to_even_near[OF q, of n] by (simp_all add: e_def r_def)
    from near e show ?thesis unfolding rd r_def[symmetric] by linarith
  qed
  show "2 ^ 53 * round_double n \<le> (2 ^ 53 + 1) * n" using both by (simp add: algebra_simps)
  show "(2 ^ 53 - 1) * n \<le> 2 ^ 53 * round_double n" using both by (simp add: algebra_simps)
qed

lemma bits_double: "0 < n \<Longrightarrow> bits (2 * n) = Suc (bits n)"
  by (subst bits.simps) simp

lemma round_to_even_double: "round_to_even (2 * q) (2 * n) = 2 * round_to_even q n"
  by (simp add: round_to_even_def Let_def)

lemma round_double_double: "round_double (2 * n) = 2 * round_double n"
proof (cases "n = 0")
  case True
  then show ?thesis by (simp add: round_double_def bits.simps)
next
  case False
  then have b: "bits (2 * n) = Suc (bits n)" by (simp add: bits_double)
  consider "bits n \<le> 52" | "bits n = 53" | "54 \<le> bits n" by linarith
  then show ?thesis
  proof cases
    case 1
    then show ?thesis by (simp add: round_double_def b)
  next
    case 2
    have "round_to_even 2 (2 * n) = 2 * n"
      using round_to_even_exact[of 2 n] by (simp add: mult.commute)
    then show ?thesis using 2 by (simp add: round_double_def b)
  next
    case 3
    then have "bits n - 52 = Suc (bits n - 53)" by simp
    then have "(2::nat) ^ (bits n - 52) = 2 * 2 ^ (bits n - 53)" by simp
    then show ?thesis using 3 by (simp add: round_double_def b round_to_even_double)
  qed
qed

lemma round_double_scale: "round_double (n * 2 ^ k) = round_double n * 2 ^ k"
proof (induction k)
  case 0
  then show ?case by simp
next
  case (Suc k)
  have "round_double (n * 2 ^ Suc k) = round_double (2 * (n * 2 ^ k))"
    by (simp add: mult.assoc mult.left_commute)
  also have "\<dots> = 2 * round_double (n * 2 ^ k)" by (rule round_double_double)
  also have "\<dots> = round_double n * 2 ^ Suc k" by (simp add: Suc.IH)
  finally show ?case .
qed


section \<open>The shape of the selected run\<close>

lemma chain_ok_months:
  "chain_ok d a f run \<Longrightarrow> p \<in> set (tl run) \<Longrightarrow>
   left_month p = right_month p \<and> left_month p = left_month f"
  by (induction d a f run rule: chain_ok.induct) (auto simp: link_ok_def)

lemma chain_ok_adjacent:
  "chain_ok d a f run \<Longrightarrow> Suc k < length run \<Longrightarrow> right (run ! k) \<le> left (run ! Suc k)"
proof (induction d a f run arbitrary: k rule: chain_ok.induct)
  case (1 d a f)
  then show ?case by simp
next
  case (2 d a f x)
  then show ?case by simp
next
  case (3 d a f x y r)
  show ?case
  proof (cases k)
    case 0
    then show ?thesis using "3.prems" by (simp add: link_ok_def)
  next
    case (Suc k')
    then show ?thesis using "3.prems" "3.IH"[of k'] by simp
  qed
qed

lemma to_int_le: "0 \<le> x \<Longrightarrow> to_int x \<le> x"
proof -
  assume "0 \<le> x"
  then have "(x + 2 ^ 31) mod 2 ^ 32 \<le> x + 2 ^ 31"
    by (intro zmod_le_nonneg_dividend) simp
  then show ?thesis by (simp add: to_int_def)
qed

lemma selected_run_valid:
  assumes "selectPartsToMerge d parts avail merge_old aggr small pred = (True, R)"
  shows "valid_run d (mk_args avail merge_old aggr small pred) R"
  using selected_run[OF assms] unfolding maximal_at_def valid_at_def by blast

text \<open>
  Claim C6. Every run returned by \<open>selectPartsToMerge\<close> is well-formed: each of its parts
  lies in one month, the month of the first part of the run; each part starts at or
  after the right end of the part before it; and the run has at least two parts and at
  most \<open>max_parts_to_merge_at_once\<close>.
\<close>

theorem selected_run_well_formed:
  assumes "selectPartsToMerge d parts avail merge_old aggr small pred = (True, R)"
  shows "(\<forall>p \<in> set R. left_month p = right_month p \<and> left_month p = left_month (hd R))
     \<and> (\<forall>k. Suc k < length R \<longrightarrow> right (R ! k) \<le> left (R ! Suc k))
     \<and> 2 \<le> length R
     \<and> length R \<le> unat (max_parts_to_merge_at_once (settings d))"
proof -
  let ?a = "mk_args avail merge_old aggr small pred"
  have v: "valid_run d ?a R" by (rule selected_run_valid[OF assms])
  then have len: "2 \<le> length R" and cap: "int (length R) \<le> to_int (uint (max_parts_to_merge_at_once (settings d)))"
    and cs: "can_start d ?a (hd R)" and ch: "chain_ok d ?a (hd R) R"
    by (simp_all add: valid_run_def)
  obtain f tl where R: "R = f # tl" using len by (cases R) auto
  have months: "left_month p = right_month p \<and> left_month p = left_month (hd R)" if "p \<in> set R" for p
  proof (cases "p = f")
    case True
    then show ?thesis using cs by (simp add: R can_start_def)
  next
    case False
    then have "p \<in> set (List.tl R)" using that by (simp add: R)
    then show ?thesis using chain_ok_months[OF ch] by blast
  qed
  have adj: "right (R ! k) \<le> left (R ! Suc k)" if "Suc k < length R" for k
    using chain_ok_adjacent[OF ch that] .
  have "to_int (uint (max_parts_to_merge_at_once (settings d)))
      \<le> uint (max_parts_to_merge_at_once (settings d))"
    by (rule to_int_le) simp
  with cap have "int (length R) \<le> uint (max_parts_to_merge_at_once (settings d))" by linarith
  then have "int (length R) \<le> int (unat (max_parts_to_merge_at_once (settings d)))"
    by (simp only: uint_nat)
  then have le: "length R \<le> unat (max_parts_to_merge_at_once (settings d))"
    by (simp only: of_nat_le_iff)
  from months adj len le show ?thesis by blast
qed

theorem selected_run_well_formed_witness:
  "selectPartsToMerge (ex_data ex_parts) [] 1000 False False False (\<lambda>p q. True) = (True, ex_parts)
   \<and> 2 \<le> length ex_parts
   \<and> length ex_parts \<le> unat (max_parts_to_merge_at_once (settings (ex_data ex_parts)))
   \<and> left_month (ex_parts ! 0) = right_month (ex_parts ! 0)
   \<and> right (ex_parts ! 0) \<le> left (ex_parts ! Suc 0)"
proof -
  note wf = selected_run_well_formed[OF ex_select]
  have "ex_parts ! 0 \<in> set ex_parts" by (simp add: ex_parts_def)
  moreover have "Suc 0 < length ex_parts" by (simp add: ex_parts_def)
  ultimately show ?thesis using wf ex_select by blast
qed

section \<open>Disk space\<close>

lemma unat_sum_list:
  "sum_list (map unat ws) < 2 ^ 64 \<Longrightarrow> unat (sum_list ws :: UInt64) = sum_list (map unat ws)"
proof (induction ws)
  case Nil
  then show ?case by simp
next
  case (Cons w ws)
  then have "sum_list (map unat ws) < 2 ^ 64" by simp
  then have "unat (sum_list ws) = sum_list (map unat ws)" by (rule Cons.IH)
  then show ?case using Cons.prems by (simp add: unat_word_ariths)
qed

lemma enough_disk_space_exact:
  assumes "enough_disk_space avail bytes" and "unat bytes < 2 ^ 53"
  shows "8 * unat bytes < 5 * unat avail"
proof (rule ccontr)
  assume "\<not> 8 * unat bytes < 5 * unat avail"
  then have le: "5 * unat avail \<le> 8 * unat bytes" by simp
  let ?c = "DISK_USAGE_COEFFICIENT_TO_SELECT"
  have c: "8 * 2 ^ 52 \<le> 5 * ?c" by (simp add: DISK_USAGE_COEFFICIENT_TO_SELECT_def)
  define X where "X = unat avail * 2 ^ 52"
  define Y where "Y = unat bytes * ?c"
  have "(5 * unat avail) * 2 ^ 52 \<le> (8 * unat bytes) * 2 ^ 52" using le by (rule mult_le_mono1)
  then have "5 * X \<le> unat bytes * (8 * 2 ^ 52)" by (simp add: X_def mult_ac)
  also have "\<dots> \<le> unat bytes * (5 * ?c)" using c by (rule mult_le_mono2)
  also have "\<dots> = 5 * Y" by (simp add: Y_def)
  finally have "X \<le> Y" by simp
  then have "unat avail * 2 ^ 52 \<le> unat bytes * ?c" by (simp only: X_def Y_def)
  then have "round_double (unat avail * 2 ^ 52) \<le> round_double (unat bytes * ?c)"
    by (rule round_double_mono)
  then have "round_double (unat avail) * 2 ^ 52 \<le> mul_double (unat bytes) ?c"
    by (simp only: round_double_scale mul_double_def round_double_small[OF assms(2)])
  then show False using assms(1) by (simp add: enough_disk_space_def)
qed

lemma sum_unat_bytes:
  assumes "sum_list (map (\<lambda>p. unat (size_in_bytes p)) R) < 2 ^ 64"
  shows "unat (sum_list (map size_in_bytes R)) = sum_list (map (\<lambda>p. unat (size_in_bytes p)) R)"
proof -
  have eq: "map unat (map size_in_bytes R) = map (\<lambda>p. unat (size_in_bytes p)) R" by simp
  have "unat (sum_list (map size_in_bytes R)) = sum_list (map unat (map size_in_bytes R))"
    by (rule unat_sum_list) (use assms in \<open>simp add: comp_def\<close>)
  then show ?thesis by (simp only: eq)
qed

lemma longest_from_disk:
  assumes "drop i ps = f # rest" and "can_start d a f"
    and "0 < cur_longest_len (longest_from d a f rest)"
  shows "enough_disk_space (available_disk_space a)
     (sum_list (map size_in_bytes (take (nat (cur_longest_len (longest_from d a f rest))) (drop i ps))))"
proof -
  from longest_from_sound[OF assms] have
    "valid_run d a (take (nat (cur_longest_len (longest_from d a f rest))) (drop i ps))"
    by (simp add: valid_at_def)
  then show ?thesis by (simp add: valid_run_def stats_of_run_def)
qed

lemma ex_disk_huge: "enough_disk_space 16442204586578331 10276377866611457"
  by (simp add: double_defs)

text \<open>
  Claim C7, as the specification states it, fails. The disk test of the source is made
  on doubles. For a part of 10276377866611456 bytes and a part of one byte, the sum is
  rounded to 10276377866611456 and its product with the coefficient to
  16442204586578330; 16442204586578331 bytes of available space are rounded to
  16442204586578332, so the run is selected, although 1.6 times the sum of its sizes is
  16442204586578331.2 and exceeds the available space.
\<close>

theorem disk_test_is_rounded:
  "selectPartsToMerge (ex_data ex_huge_parts) [] 16442204586578331 False False False (\<lambda>p q. True)
     = (True, ex_huge_parts)
   \<and> \<not> 8 * sum_list (map (\<lambda>p. unat (size_in_bytes p)) ex_huge_parts)
       < 5 * unat (16442204586578331 :: UInt64)"
proof -
  have 1: "selectPartsToMerge (ex_data ex_huge_parts) [] 16442204586578331 False False False
      (\<lambda>p q. True) = (True, ex_huge_parts)"
    by (simp add: ex_defs ex_huge_parts_def ex_disk_huge)
  have 2: "\<not> 8 * sum_list (map (\<lambda>p. unat (size_in_bytes p)) ex_huge_parts)
       < 5 * unat (16442204586578331 :: UInt64)"
    by (simp add: ex_huge_parts_def ex_part_def)
  from 1 2 show ?thesis by (rule conjI)
qed

text \<open>
  Claim C7, amended. Every run returned by \<open>selectPartsToMerge\<close> has passed the disk test
  as the source computes it: a strict comparison, in double precision, of the available
  space with the product of the 64-bit sum of the sizes and the double nearest to 1.6.
  For a run of less than \<open>2 ^ 53\<close> bytes, whose size is a double, the test is exact: the
  available space is strictly greater than 1.6 times the sum of the sizes. And the run
  that the inner loop records as the longest valid one at a position has passed the test
  as well.
\<close>

theorem selected_run_disk_headroom:
  assumes "selectPartsToMerge d parts avail merge_old aggr small pred = (True, R)"
  shows "enough_disk_space avail (sum_list (map size_in_bytes R))
     \<and> (sum_list (map (\<lambda>p. unat (size_in_bytes p)) R) < 2 ^ 53 \<longrightarrow>
          8 * sum_list (map (\<lambda>p. unat (size_in_bytes p)) R) < 5 * unat avail)
     \<and> (\<forall>i f rest.
          drop i (data_parts d) = f # rest
          \<and> can_start d (mk_args avail merge_old aggr small pred) f
          \<and> 0 < cur_longest_len (longest_from d (mk_args avail merge_old aggr small pred) f rest)
          \<longrightarrow> enough_disk_space avail
                (sum_list (map size_in_bytes
                   (take (nat (cur_longest_len
                      (longest_from d (mk_args avail merge_old aggr small pred) f rest)))
                    (drop i (data_parts d))))))"
proof -
  let ?a = "mk_args avail merge_old aggr small pred"
  have av: "available_disk_space ?a = avail" by (simp add: mk_args_def)
  have v: "valid_run d ?a R" by (rule selected_run_valid[OF assms])
  then have disk: "enough_disk_space avail (sum_list (map size_in_bytes R))"
    by (simp add: valid_run_def stats_of_run_def av)
  have exact: "8 * sum_list (map (\<lambda>p. unat (size_in_bytes p)) R) < 5 * unat avail"
    if small: "sum_list (map (\<lambda>p. unat (size_in_bytes p)) R) < 2 ^ 53"
  proof -
    have "sum_list (map (\<lambda>p. unat (size_in_bytes p)) R) < 2 ^ 64" using small by simp
    then have u: "unat (sum_list (map size_in_bytes R)) = sum_list (map (\<lambda>p. unat (size_in_bytes p)) R)"
      by (rule sum_unat_bytes)
    have "8 * unat (sum_list (map size_in_bytes R)) < 5 * unat avail"
      by (rule enough_disk_space_exact[OF disk]) (use small u in simp)
    then show ?thesis by (simp only: u)
  qed
  have rec: "enough_disk_space avail
                (sum_list (map size_in_bytes
                   (take (nat (cur_longest_len (longest_from d ?a f rest))) (drop i (data_parts d)))))"
    if "drop i (data_parts d) = f # rest" "can_start d ?a f"
       "0 < cur_longest_len (longest_from d ?a f rest)" for i f rest
    using longest_from_disk[OF that] by (simp only: av)
  from disk exact rec show ?thesis by blast
qed

lemma ex_parts_bytes: "sum_list (map (\<lambda>p. unat (size_in_bytes p)) ex_parts) = 200"
  by (simp add: ex_parts_def ex_part_def)

theorem selected_run_disk_headroom_witness:
  "selectPartsToMerge (ex_data ex_parts) [] 1000 False False False (\<lambda>p q. True) = (True, ex_parts)
   \<and> sum_list (map (\<lambda>p. unat (size_in_bytes p)) ex_parts) < 2 ^ 53
   \<and> 8 * sum_list (map (\<lambda>p. unat (size_in_bytes p)) ex_parts) < 5 * unat (1000 :: UInt64)"
proof -
  have small: "sum_list (map (\<lambda>p. unat (size_in_bytes p)) ex_parts) < 2 ^ 53"
    by (simp add: ex_parts_bytes)
  from selected_run_disk_headroom[OF ex_select] small ex_select show ?thesis by blast
qed


section \<open>The reserved space\<close>

lemma foldl_bytes:
  "foldl (\<lambda>res part. res + size_in_bytes part) x parts = x + sum_list (map size_in_bytes parts)"
  by (induction parts arbitrary: x) (simp_all add: add.assoc)

lemma estimate_small:
  assumes "sum_list (map (\<lambda>p. unat (size_in_bytes p)) parts) < 2 ^ 53"
  shows "estimateDiskSpaceForMerge parts =
     (let v = round_double (sum_list (map (\<lambda>p. unat (size_in_bytes p)) parts)
                * DISK_USAGE_COEFFICIENT_TO_RESERVE) div 2 ^ 52
      in if v < 2 ^ 64 then Some (of_nat v) else None)"
proof -
  have "sum_list (map (\<lambda>p. unat (size_in_bytes p)) parts) < 2 ^ 64" using assms by simp
  then have u: "unat (sum_list (map size_in_bytes parts))
      = sum_list (map (\<lambda>p. unat (size_in_bytes p)) parts)"
    by (rule sum_unat_bytes)
  show ?thesis
    by (simp add: estimateDiskSpaceForMerge_def foldl_bytes u mul_double_def
        round_double_small[OF assms])
qed

lemma mul_double_1: "mul_double (Suc 0) DISK_USAGE_COEFFICIENT_TO_RESERVE = 6305039478318694"
  by (simp add: double_defs)

lemma mul_double_45: "mul_double 45 DISK_USAGE_COEFFICIENT_TO_RESERVE = 283726776524341216"
  by (simp add: double_defs)

lemma ex_byte_estimate: "estimateDiskSpaceForMerge [ex_byte] = Some 1"
  by (simp add: estimateDiskSpaceForMerge_def ex_byte_def ex_part_def mul_double_1 Let_def)

lemma ex_45_estimate: "estimateDiskSpaceForMerge [ex_45_bytes] = Some 62"
  by (simp add: estimateDiskSpaceForMerge_def ex_45_bytes_def ex_part_def mul_double_45 Let_def)

text \<open>
  Claim C3, as the specification states it, fails: for one part of one byte the function
  returns 1, and the ceiling of 1.4 is 2.
\<close>

theorem estimate_is_not_ceiling:
  "estimateDiskSpaceForMerge [ex_byte] = Some 1 \<and> estimate_spec [ex_byte] = 2"
  by (simp add: ex_byte_estimate) (simp add: estimate_spec_def ex_byte_def ex_part_def)

text \<open>
  Claim C3, amended. The function returns the product of the sum of the sizes and the
  double nearest to 1.4, rounded as a double and with its fraction dropped. For runs of
  less than \<open>2 ^ 51\<close> bytes this is the floor of 1.4 times the sum, or one less (the
  constant lies below 1.4, and so may the rounded product lie below an integer): never
  more than the floor.
\<close>

theorem estimate_truncates:
  assumes "sum_list (map (\<lambda>p. unat (size_in_bytes p)) parts) < 2 ^ 51"
  shows "\<exists>v. estimateDiskSpaceForMerge parts = Some v
     \<and> (unat v = 7 * sum_list (map (\<lambda>p. unat (size_in_bytes p)) parts) div 5
        \<or> unat v + 1 = 7 * sum_list (map (\<lambda>p. unat (size_in_bytes p)) parts) div 5)"
proof -
  define T where "T = sum_list (map (\<lambda>p. unat (size_in_bytes p)) parts)"
  define N where "N = round_double (T * DISK_USAGE_COEFFICIENT_TO_RESERVE)"
  define F where "F = 7 * T div 5"
  define v where "v = N div 2 ^ 52"
  have T: "T < 2251799813685248" using assms by (simp add: T_def)
  have up: "9007199254740992 * N \<le> 9007199254740993 * (T * 6305039478318694)"
    using round_double_error(1)[of "T * DISK_USAGE_COEFFICIENT_TO_RESERVE"]
    by (simp add: N_def DISK_USAGE_COEFFICIENT_TO_RESERVE_def)
  have lo: "9007199254740991 * (T * 6305039478318694) \<le> 9007199254740992 * N"
    using round_double_error(2)[of "T * DISK_USAGE_COEFFICIENT_TO_RESERVE"]
    by (simp add: N_def DISK_USAGE_COEFFICIENT_TO_RESERVE_def)
  have F: "5 * F \<le> 7 * T" "7 * T < 5 * F + 5" by (simp_all add: F_def) 
  have v: "4503599627370496 * v \<le> N" "N < 4503599627370496 * v + 4503599627370496"
    by (simp_all add: v_def) 
  have cases: "v = F \<or> v + 1 = F" using T up lo F v by linarith
  then have "v \<le> F" by linarith
  moreover have "F < 2 ^ 64" using T F by simp
  ultimately have v64: "v < 2 ^ 64" by linarith
  have "sum_list (map (\<lambda>p. unat (size_in_bytes p)) parts) < 2 ^ 53" using assms by simp
  then have "estimateDiskSpaceForMerge parts = (if v < 2 ^ 64 then Some (of_nat v) else None)"
    unfolding v_def N_def T_def by (simp only: estimate_small Let_def)
  then have est: "estimateDiskSpaceForMerge parts = Some (of_nat v)"
    using v64 by simp
  have "unat (of_nat v :: UInt64) = v" using v64 by (simp add: unat_of_nat)
  with cases est show ?thesis unfolding F_def T_def by auto
qed

theorem estimate_truncates_witness:
  "sum_list (map (\<lambda>p. unat (size_in_bytes p)) [ex_45_bytes]) < 2 ^ 51
   \<and> estimateDiskSpaceForMerge [ex_45_bytes] = Some 62
   \<and> (\<exists>v. estimateDiskSpaceForMerge [ex_45_bytes] = Some v
        \<and> unat v + 1 = 7 * sum_list (map (\<lambda>p. unat (size_in_bytes p)) [ex_45_bytes]) div 5)"
proof -
  have small: "sum_list (map (\<lambda>p. unat (size_in_bytes p)) [ex_45_bytes]) < 2 ^ 51"
    by (simp add: ex_45_bytes_def ex_part_def)
  have "7 * sum_list (map (\<lambda>p. unat (size_in_bytes p)) [ex_45_bytes]) div 5 = 63"
    by (simp add: ex_45_bytes_def ex_part_def)
  with estimate_truncates[OF small] ex_45_estimate small show ?thesis by auto
qed


section \<open>The age of a run\<close>

lemma foldl_add_part:
  "run \<noteq> [] \<Longrightarrow> foldl (\<lambda>s p. add_part p s) (stats_of_run run) rest = stats_of_run (run @ rest)"
proof (induction rest arbitrary: run)
  case Nil
  then show ?case by simp
next
  case (Cons p rest)
  have "foldl (\<lambda>s p. add_part p s) (stats_of_run (run @ [p])) rest = stats_of_run ((run @ [p]) @ rest)"
    by (rule Cons.IH) simp
  then show ?case using Cons.prems by (simp add: stats_of_run_snoc)
qed

lemma loop_state:
  "foldl (\<lambda>s p. add_part p s) (start_run f) rest = stats_of_run (f # rest)"
  using foldl_add_part[of "[f]" rest] by (simp add: stats_of_run_single)

text \<open>
  Claim C1, as the specification states it, fails. For a run of a part modified twenty
  days ago and a part modified a day ago, in an old month, the age that the source
  computes is one day and not twenty: with \<open>merge_anything_for_old_months\<close> set and a
  balance test that fails, nothing is selected.
\<close>

theorem run_age_is_not_oldest:
  "cur_age_in_sec (ex_data_unbalanced ex_old_parts)
      (add_part (ex_old_parts ! 1) (start_run (ex_old_parts ! 0))) = 86400
   \<and> oldest_age_spec (ex_data_unbalanced ex_old_parts) ex_old_parts = 1728000
   \<and> is_old_month (ex_data_unbalanced ex_old_parts) (ex_old_parts ! 0)
   \<and> selectPartsToMerge (ex_data_unbalanced ex_old_parts) [] 1000 True False False (\<lambda>p q. True)
       = (False, [])"
proof -
  have 1: "cur_age_in_sec (ex_data_unbalanced ex_old_parts)
      (add_part (ex_old_parts ! 1) (start_run (ex_old_parts ! 0))) = 86400"
    by (simp add: cur_age_in_sec_def ex_data_unbalanced_def ex_data_def ex_old_parts_def
        ex_part_def add_part_def start_run_def to_int_def)
  have 2: "oldest_age_spec (ex_data_unbalanced ex_old_parts) ex_old_parts = 1728000"
    by (simp add: oldest_age_spec_def ex_data_unbalanced_def ex_data_def ex_old_parts_def
        ex_part_def)
  have 3: "is_old_month (ex_data_unbalanced ex_old_parts) (ex_old_parts ! 0)"
    by (simp add: is_old_month_def ex_data_unbalanced_def ex_data_def ex_old_parts_def
        ex_part_def)
  have 4: "selectPartsToMerge (ex_data_unbalanced ex_old_parts) [] 1000 True False False (\<lambda>p q. True)
       = (False, [])"
    by (simp add: ex_defs ex_old_parts_def ex_data_unbalanced_def ex_disk)
  from 1 2 3 4 show ?thesis by simp
qed

text \<open>
  Claim C1, amended. For every run that the inner loop builds, from a first part \<open>f\<close>
  through the parts \<open>rest\<close>, the age used by the dynamic thresholds is the time since the
  greatest modification time of the run, that of the part modified last, as an \<open>int\<close>.
  This age enters the rule \<open>min_len = 3\<close>, the balance test and the old-month exemption.
\<close>

theorem run_age_is_newest:
  "cur_age_in_sec d (foldl (\<lambda>s p. add_part p s) (start_run f) rest)
     = to_int (time0 d - Max (set (map modification_time (f # rest))))
   \<and> min_len d (foldl (\<lambda>s p. add_part p s) (start_run f) rest)
     = (if 1024 * 1024 * 1024
            < Max (set (map size_marks (f # rest))) * index_granularity d * 150
          \<and> to_int (time0 d - Max (set (map modification_time (f # rest)))) < 6 * 3600
        then 3 else 2)
   \<and> run_is_valid d a f (foldl (\<lambda>s p. add_part p s) (start_run f) rest)
     = (min_len d (stats_of_run (f # rest)) \<le> int (length (f # rest))
        \<and> (ratio_test d (Max (set (map size_marks (f # rest))))
               (sum_list (map size_marks (f # rest)))
               (to_int (time0 d - Max (set (map modification_time (f # rest)))))
           \<or> is_old_month d f \<and> merge_anything_for_old_months a
              \<and> 3600 * 24 * 15 < to_int (time0 d - Max (set (map modification_time (f # rest))))
           \<or> aggressive a))"
  unfolding loop_state
  by (simp add: cur_age_in_sec_def min_len_def run_is_valid_def stats_of_run_def)

theorem run_age_is_newest_witness:
  "cur_age_in_sec (ex_data_unbalanced ex_old_parts)
     (foldl (\<lambda>s p. add_part p s) (start_run (ex_part 1 1298272000)) [ex_part 2 1299913600])
   = 86400"
proof -
  have "to_int (time0 (ex_data_unbalanced ex_old_parts)
      - Max (set (map modification_time [ex_part 1 1298272000, ex_part 2 1299913600]))) = 86400"
    by (simp add: ex_data_unbalanced_def ex_data_def ex_part_def to_int_def)
  with run_age_is_newest[of "ex_data_unbalanced ex_old_parts" "ex_part 1 1298272000"
      "[ex_part 2 1299913600]"]
  show ?thesis by simp
qed


section \<open>Aggressive merges and old months\<close>

lemma valid_run_recorded:
  assumes "valid_run d a run"
  shows "int (length run) \<le> cur_longest_len (longest_from d a (hd run) (tl run @ others))"
proof -
  from assms have len: "2 \<le> length run" by (simp add: valid_run_def)
  then obtain f rest where run: "run = f # rest" by (cases run) auto
  have rest: "1 \<le> length rest" using len run by simp
  have "int (length [f] + length rest)
     \<le> cur_longest_len (extend_run d a (hd [f]) (last [f]) (rest @ others) (stats_of_run [f]) no_longest)"
    by (rule extend_run_complete) (use assms rest run in simp_all)
  then show ?thesis by (simp add: longest_from_def stats_of_run_single run)
qed

lemma ex_disk_big: "enough_disk_space 1000 (sum_list (map size_in_bytes ex_big_parts))"
  by (simp add: ex_big_parts_def ex_part_def ex_disk)

text \<open>
  Claim C2, as the specification states it, fails. Two parts of 1000 marks, written a
  minute ago, form a run that passes the tests on its parts and the disk test; with the
  flag \<open>aggressive\<close> set it is still not valid, since \<open>min_len\<close> is 3 for it, and nothing
  is selected.
\<close>

theorem aggressive_run_of_two_rejected:
  "aggressive (mk_args 1000 False True False (\<lambda>p q. True))
   \<and> length ex_big_parts = 2
   \<and> int (length ex_big_parts)
       \<le> to_int (uint (max_parts_to_merge_at_once (settings (ex_data ex_big_parts))))
   \<and> can_start (ex_data ex_big_parts) (mk_args 1000 False True False (\<lambda>p q. True)) (hd ex_big_parts)
   \<and> chain_ok (ex_data ex_big_parts) (mk_args 1000 False True False (\<lambda>p q. True))
        (hd ex_big_parts) ex_big_parts
   \<and> enough_disk_space 1000 (sum_list (map size_in_bytes ex_big_parts))
   \<and> min_len (ex_data ex_big_parts)
        (add_part (ex_big_parts ! 1) (start_run (ex_big_parts ! 0))) = 3
   \<and> \<not> valid_run (ex_data ex_big_parts) (mk_args 1000 False True False (\<lambda>p q. True)) ex_big_parts
   \<and> selectPartsToMerge (ex_data ex_big_parts) [] 1000 False True False (\<lambda>p q. True) = (False, [])"
proof -
  let ?d = "ex_data ex_big_parts"
  let ?a = "mk_args 1000 False True False (\<lambda>p q. True)"
  have 1: "aggressive ?a" by (simp add: mk_args_def)
  have 2: "length ex_big_parts = 2" by (simp add: ex_big_parts_def)
  have 3: "int (length ex_big_parts) \<le> to_int (uint (max_parts_to_merge_at_once (settings ?d)))"
    by (simp add: ex_big_parts_def ex_data_def to_int_def)
  have 4: "can_start ?d ?a (hd ex_big_parts)"
    by (simp add: can_start_def too_large_def mk_args_def ex_big_parts_def ex_part_def)
  have 5: "chain_ok ?d ?a (hd ex_big_parts) ex_big_parts"
    by (simp add: link_ok_def too_large_def mk_args_def ex_big_parts_def ex_part_def)
  have 6: "min_len ?d (add_part (ex_big_parts ! 1) (start_run (ex_big_parts ! 0))) = 3"
    by (simp add: min_len_def cur_age_in_sec_def to_int_def add_part_def start_run_def
        ex_big_parts_def ex_part_def ex_data_def)
  have "min_len ?d (stats_of_run ex_big_parts) = 3"
    using 6 by (simp add: ex_big_parts_def stats_of_run_single[symmetric] stats_of_run_snoc)
  then have 7: "\<not> valid_run ?d ?a ex_big_parts"
    using 2 by (simp add: valid_run_def run_is_valid_def)
  have 8: "selectPartsToMerge ?d [] 1000 False True False (\<lambda>p q. True) = (False, [])"
    by (simp add: ex_defs ex_big_parts_def ex_disk)
  from 1 2 3 4 5 6 7 8 ex_disk_big show ?thesis by simp
qed

text \<open>
  Claim C2, amended. For a run of at least two parts that passes the tests on its parts,
  the cap and the disk test: when the flag \<open>aggressive\<close> is set, the run is valid,
  whatever the balance test says, exactly when it has at least \<open>min_len\<close> parts (2, or 3
  for large young parts); and when the old-month exemption applies, the run is valid
  (its age of others than 15 days makes \<open>min_len\<close> 2). A valid run is recorded by the
  inner loop unless a longer one is.
\<close>

theorem aggressive_run_valid:
  assumes "2 \<le> length run"
    and "int (length run) \<le> to_int (uint (max_parts_to_merge_at_once (settings d)))"
    and "can_start d a (hd run)" and "chain_ok d a (hd run) run"
    and "enough_disk_space (available_disk_space a) (cur_total_size (stats_of_run run))"
  shows "(aggressive a \<longrightarrow>
            valid_run d a run = (min_len d (stats_of_run run) \<le> int (length run)))
     \<and> (is_old_month d (hd run) \<and> merge_anything_for_old_months a
          \<and> 3600 * 24 * 15 < cur_age_in_sec d (stats_of_run run) \<longrightarrow> valid_run d a run)
     \<and> (valid_run d a run \<longrightarrow>
          (\<forall>others. int (length run)
             \<le> cur_longest_len (longest_from d a (hd run) (tl run @ others))))"
proof -
  have a: "valid_run d a run = (min_len d (stats_of_run run) \<le> int (length run))"
    if "aggressive a"
    using assms that by (simp add: valid_run_def run_is_valid_def)
  have b: "valid_run d a run"
    if "is_old_month d (hd run) \<and> merge_anything_for_old_months a
          \<and> 3600 * 24 * 15 < cur_age_in_sec d (stats_of_run run)"
  proof -
    have "min_len d (stats_of_run run) = 2" using that by (simp add: min_len_def)
    then show ?thesis using assms that by (simp add: valid_run_def run_is_valid_def)
  qed
  have c: "int (length run) \<le> cur_longest_len (longest_from d a (hd run) (tl run @ others))"
    if "valid_run d a run" for others
    using that by (rule valid_run_recorded)
  from a b c show ?thesis by blast
qed

theorem aggressive_run_valid_witness:
  "aggressive (mk_args 1000 False True False (\<lambda>p q. True))
   \<and> valid_run (ex_data ex_parts) (mk_args 1000 False True False (\<lambda>p q. True)) ex_parts"
proof -
  let ?d = "ex_data ex_parts"
  let ?a = "mk_args 1000 False True False (\<lambda>p q. True)"
  have 1: "aggressive ?a" by (simp add: mk_args_def)
  have 2: "2 \<le> length ex_parts" by (simp add: ex_parts_def)
  have 3: "int (length ex_parts) \<le> to_int (uint (max_parts_to_merge_at_once (settings ?d)))"
    by (simp add: ex_parts_def ex_data_def to_int_def)
  have 4: "can_start ?d ?a (hd ex_parts)"
    by (simp add: can_start_def too_large_def mk_args_def ex_parts_def ex_part_def)
  have 5: "chain_ok ?d ?a (hd ex_parts) ex_parts"
    by (simp add: link_ok_def too_large_def mk_args_def ex_parts_def ex_part_def)
  have 6: "enough_disk_space (available_disk_space ?a) (cur_total_size (stats_of_run ex_parts))"
    by (simp add: stats_of_run_def ex_parts_def ex_part_def mk_args_def ex_disk)
  have 7: "min_len ?d (stats_of_run ex_parts) \<le> int (length ex_parts)"
    by (simp add: stats_of_run_def min_len_def cur_age_in_sec_def to_int_def
        ex_parts_def ex_part_def ex_data_def)
  from aggressive_run_valid[OF 2 3 4 5 6] 1 7 show ?thesis by blast
qed


section \<open>The new part\<close>

lemma foldl_max:
  "foldl (\<lambda>x p. max x (g p)) (x0 :: 'a :: linorder) ps = Max (insert x0 (set (map g ps)))"
proof (induction ps arbitrary: x0)
  case Nil
  then show ?case by simp
next
  case (Cons p ps)
  have "Max (insert (max x0 (g p)) (set (map g ps))) = Max (insert x0 (insert (g p) (set (map g ps))))"
    by (cases "set (map g ps) = {}") (simp_all add: max.assoc)
  then show ?case by (simp add: Cons.IH)
qed

lemma foldl_min:
  "foldl (\<lambda>x p. min x (g p)) (x0 :: 'a :: linorder) ps = Min (insert x0 (set (map g ps)))"
proof (induction ps arbitrary: x0)
  case Nil
  then show ?case by simp
next
  case (Cons p ps)
  have "Min (insert (min x0 (g p)) (set (map g ps))) = Min (insert x0 (insert (g p) (set (map g ps))))"
    by (cases "set (map g ps) = {}") (simp_all add: min.assoc)
  then show ?case by (simp add: Cons.IH)
qed

lemma Max_insert_bot:
  assumes "ps \<noteq> []" and "\<And>y. (b :: 'a :: linorder) \<le> y"
  shows "Max (insert b (set (map g ps))) = Max (set (map g ps))"
proof -
  have ne: "set (map g ps) \<noteq> {}" using assms(1) by simp
  have "Max (insert b (set (map g ps))) = max b (Max (set (map g ps)))"
    by (rule Max_insert) (use ne in simp_all)
  then show ?thesis using assms(2) by (simp add: max_absorb2)
qed

lemma Min_insert_top:
  assumes "ps \<noteq> []" and "\<And>y. y \<le> (t :: 'a :: linorder)"
  shows "Min (insert t (set (map g ps))) = Min (set (map g ps))"
proof -
  have ne: "set (map g ps) \<noteq> {}" using assms(1) by simp
  have "Min (insert t (set (map g ps))) = min t (Min (set (map g ps)))"
    by (rule Min_insert) (use ne in simp_all)
  then show ?thesis using assms(2) by (simp add: min_absorb2)
qed

lemma day_le_max: "(y :: DayNum_t) \<le> 65535"
proof -
  have "(65535 :: DayNum_t) = - 1" by simp
  then show ?thesis by (simp only: word_n1_ge)
qed

lemma new_data_part_fields:
  assumes "parts \<noteq> []"
  shows "left (new_data_part e parts) = left (hd parts)"
    and "right (new_data_part e parts) = right (last parts)"
    and "left_date (new_data_part e parts) = Min (set (map left_date parts))"
    and "right_date (new_data_part e parts) = Max (set (map right_date parts))"
    and "level (new_data_part e parts) = 1 + Max (set (map level parts))"
proof -
  show "left (new_data_part e parts) = left (hd parts)"
    by (simp add: new_data_part_def Let_def)
  show "right (new_data_part e parts) = right (last parts)"
    by (simp add: new_data_part_def Let_def)
  have "foldl (\<lambda>x p. min x (left_date p)) 65535 parts = Min (set (map left_date parts))"
    unfolding foldl_min by (rule Min_insert_top[OF assms]) (rule day_le_max)
  then show "left_date (new_data_part e parts) = Min (set (map left_date parts))"
    by (simp add: new_data_part_def Let_def)
  have "foldl (\<lambda>x p. max x (right_date p)) 0 parts = Max (set (map right_date parts))"
    unfolding foldl_max by (rule Max_insert_bot[OF assms]) simp
  then show "right_date (new_data_part e parts) = Max (set (map right_date parts))"
    by (simp add: new_data_part_def Let_def)
  have "foldl (\<lambda>l p. max l (level p)) 0 parts = Max (set (map level parts))"
    unfolding foldl_max by (rule Max_insert_bot[OF assms]) simp
  then show "level (new_data_part e parts) = 1 + Max (set (map level parts))"
    by (simp add: new_data_part_def Let_def)
qed

lemma mergeParts_cases:
  assumes "parts \<noteq> []"
    and "mode e = Ordinary \<or> mode e = Collapsing \<or> mode e = Summing"
    and "write_blocks (canceled e) 0 (merged_stream e parts) [] = (k, written)"
  shows "mergeParts e st parts =
     (if canceled e k then (Inr '''', st)
      else if 0 = marksCount e written \<and> mode e = Ordinary
        then (Inl (LOGICAL_ERROR ''Empty part after merge''), st)
      else if 0 = marksCount e written then (Inr '''', st)
      else (Inr (name (new_data_part e parts)),
            st \<lparr> part_set := replaceParts e parts
                    ((new_data_part e parts) \<lparr> size_marks := marksCount e written,
                                               modification_time := merge_time e \<rparr>)
                    (part_set st),
                 replace_calls := replace_calls st @
                    [(parts, (new_data_part e parts) \<lparr> size_marks := marksCount e written,
                                               modification_time := merge_time e \<rparr>)] \<rparr>))"
  using assms by (auto simp: mergeParts_def Let_def)

lemma mergeParts_unknown_mode:
  "mode e = Unknown_mode m \<Longrightarrow> \<exists>f. mergeParts e st parts = (Inl f, st)"
  by (simp add: mergeParts_def Let_def)

lemma mergeParts_empty: "mergeParts e st [] = (Inl UNDEFINED_BEHAVIOUR, st)"
  by (simp add: mergeParts_def)

lemma unat_Max_level:
  assumes "parts \<noteq> []"
  shows "unat (Max (set (map level parts))) = Max (set (map (\<lambda>p. unat (level p)) parts))"
proof -
  have m: "mono (unat :: 32 word \<Rightarrow> nat)" by (simp add: mono_def word_le_nat_alt)
  have "unat (Max (set (map level parts))) = Max (unat ` set (map level parts))"
    by (rule mono_Max_commute[OF m]) (use assms in simp_all)
  then show ?thesis by (simp add: image_image)
qed

lemma new_data_part_level_unat:
  assumes "parts \<noteq> []"
  shows "unat (level (new_data_part e parts))
     = (1 + Max (set (map (\<lambda>p. unat (level p)) parts))) mod 2 ^ 32"
proof -
  have "unat (1 + Max (set (map level parts)))
      = (1 + unat (Max (set (map level parts)))) mod 2 ^ 32"
    by (simp add: unat_word_ariths)
  then show ?thesis
    by (simp only: new_data_part_fields(5)[OF assms] unat_Max_level[OF assms])
qed

lemma ex_top_merge:
  "mergeParts ex_executor ex_storage [ex_top_level] =
     (Inr (name (new_data_part ex_executor [ex_top_level])),
      ex_storage \<lparr> part_set := replaceParts ex_executor [ex_top_level]
                      ((new_data_part ex_executor [ex_top_level])
                         \<lparr> size_marks := 2, modification_time := 1300000000 \<rparr>)
                      (part_set ex_storage),
                   replace_calls := replace_calls ex_storage @
                      [([ex_top_level], (new_data_part ex_executor [ex_top_level])
                         \<lparr> size_marks := 2, modification_time := 1300000000 \<rparr>)] \<rparr>)"
proof -
  have w: "write_blocks (canceled ex_executor) 0 (merged_stream ex_executor [ex_top_level]) []
      = (3, [1, 2])"
    by (simp add: ex_executor_def numeral_3_eq_3)
  have known: "mode ex_executor = Ordinary \<or> mode ex_executor = Collapsing \<or> mode ex_executor = Summing"
    by (simp add: ex_executor_def)
  have c: "\<not> canceled ex_executor 3" by (simp add: ex_executor_def)
  have mc: "marksCount ex_executor [Suc 0, 2] = 2" by (simp add: ex_executor_def)
  have mt: "merge_time ex_executor = 1300000000" by (simp add: ex_executor_def)
  have ne: "[ex_top_level] \<noteq> []" by simp
  show ?thesis
    unfolding mergeParts_cases[OF ne known w] by (simp add: c mc mt)
qed

text \<open>
  Claim C8, as the specification states it, fails for the level: the counter is an
  unsigned 32-bit integer, and for an input of level \<open>2 ^ 32 - 1\<close> the increment wraps.
  The part that \<open>mergeParts\<close> hands to \<open>replaceParts\<close> has level 0, not \<open>2 ^ 32\<close>.
\<close>

theorem new_part_level_wraps:
  "level (new_data_part ex_executor [ex_top_level]) = 0
   \<and> 1 + Max (set (map (\<lambda>p. unat (level p)) [ex_top_level])) = 4294967296
   \<and> (\<exists>np. replace_calls (snd (mergeParts ex_executor ex_storage [ex_top_level]))
              = [([ex_top_level], np)]
          \<and> level np = 0)"
proof -
  have 1: "level (new_data_part ex_executor [ex_top_level]) = 0"
    by (simp add: new_data_part_def ex_top_level_def ex_part_def Let_def)
  have 2: "1 + Max (set (map (\<lambda>p. unat (level p)) [ex_top_level])) = 4294967296"
    by (simp add: ex_top_level_def ex_part_def)
  have 3: "replace_calls (snd (mergeParts ex_executor ex_storage [ex_top_level]))
      = [([ex_top_level], (new_data_part ex_executor [ex_top_level])
                         \<lparr> size_marks := 2, modification_time := 1300000000 \<rparr>)]"
    unfolding ex_top_merge by (simp add: ex_storage_def)
  have 4: "level ((new_data_part ex_executor [ex_top_level])
                         \<lparr> size_marks := 2, modification_time := 1300000000 \<rparr>) = 0"
    using 1 by simp
  from 1 2 3 4 show ?thesis by blast
qed

text \<open>
  Claim C8, amended. For a non-empty run, the new part that \<open>mergeParts\<close> builds starts
  where the first input starts and ends where the last input ends, its dates are the
  least of the inputs' left dates and the greatest of their right dates, and its level is
  one more than the greatest level of the inputs in unsigned 32-bit arithmetic, that is
  modulo \<open>2 ^ 32\<close>. When the mode is known, the flag read after the loop is not set and
  the written part has marks, \<open>mergeParts\<close> returns the name of this part and hands it,
  with its size and modification time set, to \<open>replaceParts\<close>.
\<close>

theorem new_part_metadata:
  assumes "parts \<noteq> []"
  shows "left (new_data_part e parts) = left (hd parts)
     \<and> right (new_data_part e parts) = right (last parts)
     \<and> left_date (new_data_part e parts) = Min (set (map left_date parts))
     \<and> right_date (new_data_part e parts) = Max (set (map right_date parts))
     \<and> level (new_data_part e parts) = 1 + Max (set (map level parts))
     \<and> unat (level (new_data_part e parts))
         = (1 + Max (set (map (\<lambda>p. unat (level p)) parts))) mod 2 ^ 32
     \<and> (\<forall>st k written.
          (mode e = Ordinary \<or> mode e = Collapsing \<or> mode e = Summing)
          \<and> write_blocks (canceled e) 0 (merged_stream e parts) [] = (k, written)
          \<and> \<not> canceled e k \<and> marksCount e written \<noteq> 0 \<longrightarrow>
          mergeParts e st parts =
            (Inr (name (new_data_part e parts)),
             st \<lparr> part_set := replaceParts e parts
                     ((new_data_part e parts) \<lparr> size_marks := marksCount e written,
                                                modification_time := merge_time e \<rparr>)
                     (part_set st),
                  replace_calls := replace_calls st @
                     [(parts, (new_data_part e parts) \<lparr> size_marks := marksCount e written,
                                                modification_time := merge_time e \<rparr>)] \<rparr>))"
proof -
  have pub: "mergeParts e st parts =
            (Inr (name (new_data_part e parts)),
             st \<lparr> part_set := replaceParts e parts
                     ((new_data_part e parts) \<lparr> size_marks := marksCount e written,
                                                modification_time := merge_time e \<rparr>)
                     (part_set st),
                  replace_calls := replace_calls st @
                     [(parts, (new_data_part e parts) \<lparr> size_marks := marksCount e written,
                                                modification_time := merge_time e \<rparr>)] \<rparr>)"
    if known: "mode e = Ordinary \<or> mode e = Collapsing \<or> mode e = Summing"
      and w: "write_blocks (canceled e) 0 (merged_stream e parts) [] = (k, written)"
      and c: "\<not> canceled e k" and m: "marksCount e written \<noteq> 0" for st k written
    unfolding mergeParts_cases[OF assms known w] using c m by simp
  from new_data_part_fields[OF assms, of e] new_data_part_level_unat[OF assms, of e] pub
  show ?thesis by blast
qed

lemma ex_merge:
  "mergeParts ex_executor ex_storage ex_parts =
     (Inr ''merged'',
      ex_storage \<lparr> part_set := [(new_data_part ex_executor ex_parts)
                                  \<lparr> size_marks := 2, modification_time := 1300000000 \<rparr>],
                   replace_calls := [(ex_parts, (new_data_part ex_executor ex_parts)
                                  \<lparr> size_marks := 2, modification_time := 1300000000 \<rparr>)] \<rparr>)"
proof -
  have w: "write_blocks (canceled ex_executor) 0 (merged_stream ex_executor ex_parts) [] = (3, [1, 2])"
    by (simp add: ex_executor_def numeral_3_eq_3)
  have ne: "ex_parts \<noteq> []" by (simp add: ex_parts_def)
  have known: "mode ex_executor = Ordinary \<or> mode ex_executor = Collapsing \<or> mode ex_executor = Summing"
    by (simp add: ex_executor_def)
  have nm: "name (new_data_part ex_executor ex_parts) = ''merged''"
    by (simp add: new_data_part_def ex_executor_def Let_def)
  show ?thesis
    unfolding mergeParts_cases[OF ne known w] nm
    by (simp add: ex_executor_def ex_storage_def)
qed

theorem new_part_metadata_witness:
  "ex_parts \<noteq> []
   \<and> mode ex_executor = Ordinary
   \<and> write_blocks (canceled ex_executor) 0 (merged_stream ex_executor ex_parts) [] = (3, [1, 2])
   \<and> \<not> canceled ex_executor 3
   \<and> marksCount ex_executor [1, 2] \<noteq> 0
   \<and> fst (mergeParts ex_executor ex_storage ex_parts) = Inr ''merged''
   \<and> (\<exists>np. replace_calls (snd (mergeParts ex_executor ex_storage ex_parts)) = [(ex_parts, np)]
          \<and> left np = 1 \<and> right np = 2 \<and> left_date np = 15000 \<and> right_date np = 15001
          \<and> level np = 1)"
proof -
  let ?np = "(new_data_part ex_executor ex_parts)
      \<lparr> size_marks := marksCount ex_executor [1, 2], modification_time := merge_time ex_executor \<rparr>"
  have ne: "ex_parts \<noteq> []" by (simp add: ex_parts_def)
  have m: "mode ex_executor = Ordinary" by (simp add: ex_executor_def)
  have w: "write_blocks (canceled ex_executor) 0 (merged_stream ex_executor ex_parts) [] = (3, [1, 2])"
    by (simp add: ex_executor_def numeral_3_eq_3)
  have c: "\<not> canceled ex_executor 3" by (simp add: ex_executor_def)
  have mc: "marksCount ex_executor [1, 2] \<noteq> 0" by (simp add: ex_executor_def)
  note md = new_part_metadata[OF ne, of ex_executor]
  from md m w c mc have run: "mergeParts ex_executor ex_storage ex_parts =
      (Inr (name (new_data_part ex_executor ex_parts)),
       ex_storage \<lparr> part_set := replaceParts ex_executor ex_parts ?np (part_set ex_storage),
                    replace_calls := replace_calls ex_storage @ [(ex_parts, ?np)] \<rparr>)"
    by blast
  have nm: "name (new_data_part ex_executor ex_parts) = ''merged''"
    by (simp add: new_data_part_def ex_executor_def Let_def)
  have r: "fst (mergeParts ex_executor ex_storage ex_parts) = Inr ''merged''"
    by (simp add: run nm)
  have calls: "replace_calls (snd (mergeParts ex_executor ex_storage ex_parts)) = [(ex_parts, ?np)]"
    unfolding run by (simp add: ex_storage_def)
  have vals: "left (hd ex_parts) = 1" "right (last ex_parts) = 2"
    "Min (set (map left_date ex_parts)) = 15000" "Max (set (map right_date ex_parts)) = 15001"
    "1 + Max (set (map level ex_parts)) = 1"
    by (simp_all add: ex_parts_def ex_part_def)
  from md vals have fields: "left ?np = 1 \<and> right ?np = 2 \<and> left_date ?np = 15000
      \<and> right_date ?np = 15001 \<and> level ?np = 1"
    by simp
  from ne m w c mc r calls fields show ?thesis by blast
qed

section \<open>Publication\<close>

text \<open>
  Claim C9. For a non-empty run and a known mode, and a part name that is never empty:
  when the flag read after the loop is set, \<open>mergeParts\<close> returns the empty name and the
  storage is what it was; when the written part has no marks, it returns the empty name
  and leaves the storage alone in the modes other than Ordinary, and throws a logical
  error, the storage again untouched, in the mode Ordinary. Whatever the result, a
  non-empty name is returned exactly when \<open>replaceParts\<close> has been called, and otherwise
  the storage is unchanged.
\<close>

theorem mergeParts_publishes_on_success_only:
  assumes "parts \<noteq> []"
    and "mode e = Ordinary \<or> mode e = Collapsing \<or> mode e = Summing"
    and "\<forall>ld rd l r lv. getPartName e ld rd l r lv \<noteq> ''''"
    and "write_blocks (canceled e) 0 (merged_stream e parts) [] = (k, written)"
  shows "(canceled e k \<longrightarrow> mergeParts e st parts = (Inr '''', st))
     \<and> (\<not> canceled e k \<and> marksCount e written = 0 \<and> mode e \<noteq> Ordinary \<longrightarrow>
          mergeParts e st parts = (Inr '''', st))
     \<and> (\<not> canceled e k \<and> marksCount e written = 0 \<and> mode e = Ordinary \<longrightarrow>
          mergeParts e st parts = (Inl (LOGICAL_ERROR ''Empty part after merge''), st))
     \<and> ((\<exists>nm. fst (mergeParts e st parts) = Inr nm \<and> nm \<noteq> '''')
          = (\<exists>np. replace_calls (snd (mergeParts e st parts)) = replace_calls st @ [(parts, np)]))
     \<and> (\<not> (\<exists>nm. fst (mergeParts e st parts) = Inr nm \<and> nm \<noteq> '''') \<longrightarrow>
          snd (mergeParts e st parts) = st)"
proof -
  note eq = mergeParts_cases[OF assms(1,2,4), of st]
  have nm: "name (new_data_part e parts) \<noteq> ''''"
    using assms(3) by (simp add: new_data_part_def Let_def)
  have 1: "mergeParts e st parts = (Inr '''', st)" if "canceled e k"
    using that by (simp add: eq)
  have 2: "mergeParts e st parts = (Inr '''', st)"
    if "\<not> canceled e k \<and> marksCount e written = 0 \<and> mode e \<noteq> Ordinary"
    using that by (simp add: eq)
  have 3: "mergeParts e st parts = (Inl (LOGICAL_ERROR ''Empty part after merge''), st)"
    if "\<not> canceled e k \<and> marksCount e written = 0 \<and> mode e = Ordinary"
    using that by (simp add: eq)
  have 4: "(\<exists>nm. fst (mergeParts e st parts) = Inr nm \<and> nm \<noteq> '''')
          = (\<exists>np. replace_calls (snd (mergeParts e st parts)) = replace_calls st @ [(parts, np)])"
    using nm by (simp add: eq)
  have 5: "snd (mergeParts e st parts) = st"
    if "\<not> (\<exists>nm. fst (mergeParts e st parts) = Inr nm \<and> nm \<noteq> '''')"
    using that nm by (simp add: eq split: if_splits)
  from 1 2 3 4 5 show ?thesis by blast
qed

theorem mergeParts_publishes_on_success_only_witness:
  "ex_parts \<noteq> []
   \<and> mode ex_executor = Ordinary
   \<and> write_blocks (canceled ex_executor) 0 (merged_stream ex_executor ex_parts) [] = (3, [1, 2])
   \<and> fst (mergeParts ex_executor ex_storage ex_parts) = Inr ''merged''
   \<and> (\<exists>np. replace_calls (snd (mergeParts ex_executor ex_storage ex_parts))
          = replace_calls ex_storage @ [(ex_parts, np)])"
proof -
  have w: "write_blocks (canceled ex_executor) 0 (merged_stream ex_executor ex_parts) [] = (3, [1, 2])"
    by (simp add: ex_executor_def numeral_3_eq_3)
  have ne: "ex_parts \<noteq> []" by (simp add: ex_parts_def)
  have m: "mode ex_executor = Ordinary" by (simp add: ex_executor_def)
  then have known: "mode ex_executor = Ordinary \<or> mode ex_executor = Collapsing
      \<or> mode ex_executor = Summing" by simp
  have nm: "\<forall>ld rd l r lv. getPartName ex_executor ld rd l r lv \<noteq> ''''"
    by (simp add: ex_executor_def)
  have r: "fst (mergeParts ex_executor ex_storage ex_parts) = Inr ''merged''"
    by (simp add: ex_merge)
  then have "\<exists>nm. fst (mergeParts ex_executor ex_storage ex_parts) = Inr nm \<and> nm \<noteq> ''''"
    by simp
  with mergeParts_publishes_on_success_only[OF ne known nm w, of ex_storage]
  have "\<exists>np. replace_calls (snd (mergeParts ex_executor ex_storage ex_parts))
          = replace_calls ex_storage @ [(ex_parts, np)]" by blast
  with w ne m r show ?thesis by blast
qed

end
